theory Spec2Isabelle
  imports Main "HOL-Library.AList"
begin

section \<open>LaneQueue: the per-session task scheduler\<close>

text \<open>
  The scheduler of \<^verbatim>\<open>queue/lane-queue.ts\<close> as a state machine. The class fields are
  a record; every method is a function from the state to the new state. A JavaScript
  \<^verbatim>\<open>Map\<close> iterates in insertion order, so the lane table is an association list:
  \<^verbatim>\<open>set\<close> on a new key appends, \<^verbatim>\<open>delete\<close> removes.

  The work of a task is opaque. Calling \<^verbatim>\<open>task.handler()\<close> returns a promise (the
  type is \<^verbatim>\<open>() => Promise<T>\<close>): the call neither throws before it returns nor calls
  the scheduler itself, and the pump then waits at its \<^verbatim>\<open>await\<close>. The settlement of
  the awaited race (the handler's value, its error, or the timer) arrives later as an
  event of its own. Between two events the methods run without suspension, so each
  event is one atomic step. The calls of \<^verbatim>\<open>task.resolve\<close> and \<^verbatim>\<open>task.reject\<close> are
  recorded, oldest first, in the field \<open>settled\<close>.

  The numeric options of the configuration are counts and a duration: natural
  numbers. A priority is an integer. The counter is an integer, so that a decrement
  below zero would show.
\<close>

datatype QueueMode = CollectMode | SteerMode | FollowupMode

datatype OverflowStrategy = Drop | Reject | Wait

datatype error =
    OverflowDropped string   \<comment> \<open>\<^verbatim>\<open>Queue overflow: task dropped for <key>\<close>\<close>
  | QueueFull string         \<comment> \<open>\<^verbatim>\<open>Queue full for <key>\<close>\<close>
  | Superseded               \<comment> \<open>\<^verbatim>\<open>Task superseded by steer mode\<close>\<close>
  | Aborted                  \<comment> \<open>\<^verbatim>\<open>Task aborted\<close>\<close>
  | Cleared                  \<comment> \<open>\<^verbatim>\<open>Queue cleared\<close>\<close>
  | Timeout                  \<comment> \<open>\<^verbatim>\<open>Task timeout\<close>\<close>
  | HandlerError string      \<comment> \<open>whatever the handler threw\<close>

text \<open>What a task's promise was settled with: \<^verbatim>\<open>resolve(value)\<close> or \<^verbatim>\<open>reject(error)\<close>.\<close>

datatype outcome = Resolved nat | Rejected error

text \<open>How the race of the handler against the timer ended.\<close>

datatype race = Fulfilled nat | Thrown string | TimerFired

record QueuedTask =
  task_id :: nat           \<comment> \<open>the number \<open>n\<close> of \<^verbatim>\<open>task_<n>\<close>\<close>
  sessionKey :: string
  handler :: nat           \<comment> \<open>the work, opaque\<close>
  mode :: QueueMode
  priority :: int
  createdAt :: nat

record LaneQueueConfig =
  cfg_maxConcurrency :: "nat option"
  cfg_maxQueueSize :: "nat option"
  cfg_defaultMode :: "QueueMode option"
  cfg_overflowStrategy :: "OverflowStrategy option"
  cfg_taskTimeoutMs :: "nat option"

record RequiredConfig =
  maxConcurrency :: nat
  maxQueueSize :: nat
  defaultMode :: QueueMode
  overflowStrategy :: OverflowStrategy
  taskTimeoutMs :: nat

record Lane =
  queue :: "QueuedTask list"
  processing :: bool
  currentTask :: "QueuedTask option"

record LaneQueue =
  lanes :: "(string \<times> Lane) list"
  globalConcurrency :: int
  config :: RequiredConfig
  taskIdCounter :: nat
  settled :: "(QueuedTask \<times> outcome) list"

definition required :: "LaneQueueConfig \<Rightarrow> RequiredConfig" where
  "required c =
     \<lparr> maxConcurrency = (case cfg_maxConcurrency c of None \<Rightarrow> 10 | Some n \<Rightarrow> n),
       maxQueueSize = (case cfg_maxQueueSize c of None \<Rightarrow> 100 | Some n \<Rightarrow> n),
       defaultMode = (case cfg_defaultMode c of None \<Rightarrow> CollectMode | Some m \<Rightarrow> m),
       overflowStrategy = (case cfg_overflowStrategy c of None \<Rightarrow> Wait | Some s \<Rightarrow> s),
       taskTimeoutMs = (case cfg_taskTimeoutMs c of None \<Rightarrow> 300000 | Some n \<Rightarrow> n) \<rparr>"

definition new_LaneQueue :: "LaneQueueConfig \<Rightarrow> LaneQueue" where
  "new_LaneQueue c =
     \<lparr> lanes = [], globalConcurrency = 0, config = required c, taskIdCounter = 0,
       settled = [] \<rparr>"

definition empty_lane :: Lane where
  "empty_lane = \<lparr> queue = [], processing = False, currentTask = None \<rparr>"

definition set_lane :: "string \<Rightarrow> Lane \<Rightarrow> LaneQueue \<Rightarrow> LaneQueue" where
  "set_lane k l s = s\<lparr> lanes := AList.update k l (lanes s) \<rparr>"

definition getOrCreateLane :: "string \<Rightarrow> LaneQueue \<Rightarrow> Lane \<times> LaneQueue" where
  "getOrCreateLane k s =
     (case map_of (lanes s) k of
        Some l \<Rightarrow> (l, s)
      | None \<Rightarrow> (empty_lane, set_lane k empty_lane s))"

fun insertByPriority :: "QueuedTask list \<Rightarrow> QueuedTask \<Rightarrow> QueuedTask list" where
  "insertByPriority [] t = [t]"
| "insertByPriority (q # qs) t =
     (if priority t > priority q then t # q # qs else q # insertByPriority qs t)"

text \<open>
  \<^verbatim>\<open>processLane\<close> up to its first \<^verbatim>\<open>await\<close>: the guards, the flag and the counter,
  then the first round of the \<^verbatim>\<open>while\<close> loop (the queue is not empty there), which
  shifts the front task, records it as current and starts its handler.
\<close>

definition processLane :: "string \<Rightarrow> LaneQueue \<Rightarrow> LaneQueue" where
  "processLane k s =
     (case map_of (lanes s) k of
        None \<Rightarrow> s
      | Some l \<Rightarrow>
          if processing l \<or> queue l = [] then s
          else if globalConcurrency s \<ge> int (maxConcurrency (config s)) then s
          else set_lane k
                 (l\<lparr> processing := True, queue := tl (queue l),
                     currentTask := Some (hd (queue l)) \<rparr>)
                 (s\<lparr> globalConcurrency := globalConcurrency s + 1 \<rparr>))"

definition cleanupEmptyLane :: "string \<Rightarrow> LaneQueue \<Rightarrow> LaneQueue" where
  "cleanupEmptyLane k s =
     (case map_of (lanes s) k of
        None \<Rightarrow> s
      | Some l \<Rightarrow>
          if queue l = [] \<and> \<not> processing l then s\<lparr> lanes := AList.delete k (lanes s) \<rparr>
          else s)"

text \<open>
  The sweep of \<^verbatim>\<open>tryProcessPendingLanes\<close> over the keys of the table, in table order.
  \<^verbatim>\<open>processLane\<close> neither adds nor removes a lane, so the keys are those at the start
  of the loop; each lane is read when its turn comes.
\<close>

fun sweep :: "string list \<Rightarrow> LaneQueue \<Rightarrow> LaneQueue" where
  "sweep [] s = s"
| "sweep (k # ks) s =
     (case map_of (lanes s) k of
        None \<Rightarrow> sweep ks s
      | Some l \<Rightarrow>
          if \<not> processing l \<and> queue l \<noteq> [] then
            (let s' = processLane k s in
             if globalConcurrency s' \<ge> int (maxConcurrency (config s')) then s'
             else sweep ks s')
          else sweep ks s)"

definition tryProcessPendingLanes :: "LaneQueue \<Rightarrow> LaneQueue" where
  "tryProcessPendingLanes s =
     (if globalConcurrency s \<ge> int (maxConcurrency (config s)) then s
      else sweep (map fst (lanes s)) s)"

text \<open>The \<^verbatim>\<open>finally\<close> block of \<^verbatim>\<open>processLane\<close>, without the sweep that follows it.\<close>

definition pump_finally :: "string \<Rightarrow> LaneQueue \<Rightarrow> LaneQueue" where
  "pump_finally k s =
     (case map_of (lanes s) k of
        None \<Rightarrow> s
      | Some l \<Rightarrow>
          cleanupEmptyLane k
            (set_lane k (l\<lparr> processing := False, currentTask := None \<rparr>)
               (s\<lparr> globalConcurrency := globalConcurrency s - 1 \<rparr>)))"

definition race_outcome :: "race \<Rightarrow> outcome" where
  "race_outcome r =
     (case r of
        Fulfilled v \<Rightarrow> Resolved v
      | Thrown e \<Rightarrow> Rejected (HandlerError e)
      | TimerFired \<Rightarrow> Rejected Timeout)"

text \<open>
  The pump of lane \<open>k\<close> resumes after its \<^verbatim>\<open>await\<close>: it settles the current task,
  clears it, and either takes the next task of the queue or leaves the loop through
  the \<^verbatim>\<open>finally\<close> block and the sweep. A lane without a current task has no pump
  waiting, and the event changes nothing.
\<close>

definition task_settled :: "string \<Rightarrow> race \<Rightarrow> LaneQueue \<Rightarrow> LaneQueue" where
  "task_settled k r s =
     (case map_of (lanes s) k of
        None \<Rightarrow> s
      | Some l \<Rightarrow>
          (case currentTask l of
             None \<Rightarrow> s
           | Some t \<Rightarrow>
               (let s1 = s\<lparr> settled := settled s @ [(t, race_outcome r)] \<rparr> in
                if queue l \<noteq> [] then
                  set_lane k (l\<lparr> queue := tl (queue l), currentTask := Some (hd (queue l)) \<rparr>) s1
                else
                  tryProcessPendingLanes
                    (pump_finally k (set_lane k (l\<lparr> currentTask := None \<rparr>) s1)))))"

text \<open>
  \<^verbatim>\<open>enqueue\<close>. The result is \<open>Inl\<close> the error when the call throws (the returned
  promise is rejected at once and no task is made), \<open>Inr\<close> the new task otherwise.
  \<open>now\<close> is the reading of \<^verbatim>\<open>Date.now()\<close>.
\<close>

definition overflow_error :: "RequiredConfig \<Rightarrow> string \<Rightarrow> Lane \<Rightarrow> error option" where
  "overflow_error c k l =
     (if length (queue l) \<ge> maxQueueSize c then
        (case overflowStrategy c of
           Drop \<Rightarrow> Some (OverflowDropped k)
         | Reject \<Rightarrow> Some (QueueFull k)
         | Wait \<Rightarrow> None)
      else None)"

definition steer_filter :: "QueueMode \<Rightarrow> QueuedTask list \<Rightarrow> QueuedTask list" where
  "steer_filter m q =
     (if m = SteerMode \<and> length q > 0 then filter (\<lambda>t. mode t \<noteq> CollectMode) q else q)"

definition steer_rejected :: "QueueMode \<Rightarrow> QueuedTask list \<Rightarrow> (QueuedTask \<times> outcome) list" where
  "steer_rejected m q =
     (if m = SteerMode \<and> length q > 0
      then map (\<lambda>t. (t, Rejected Superseded)) (filter (\<lambda>t. mode t = CollectMode) q)
      else [])"

definition enqueue ::
  "string \<Rightarrow> nat \<Rightarrow> QueueMode option \<Rightarrow> int option \<Rightarrow> nat \<Rightarrow> LaneQueue
     \<Rightarrow> (error + QueuedTask) \<times> LaneQueue" where
  "enqueue k h mode_opt priority_opt now s =
     (let (l, s1) = getOrCreateLane k s;
          m = (case mode_opt of None \<Rightarrow> defaultMode (config s) | Some m \<Rightarrow> m);
          p = (case priority_opt of None \<Rightarrow> 0 | Some p \<Rightarrow> p)
      in case overflow_error (config s) k l of
           Some e \<Rightarrow> (Inl e, s1)
         | None \<Rightarrow>
             (let t = \<lparr> task_id = taskIdCounter s1 + 1, sessionKey = k, handler = h,
                        mode = m, priority = p, createdAt = now \<rparr>;
                  s2 = s1\<lparr> taskIdCounter := taskIdCounter s1 + 1,
                           settled := settled s1 @ steer_rejected m (queue l) \<rparr>;
                  s3 = set_lane k (l\<lparr> queue := insertByPriority (steer_filter m (queue l)) t \<rparr>) s2
              in (Inr t, processLane k s3)))"

definition abort :: "string \<Rightarrow> LaneQueue \<Rightarrow> nat \<times> LaneQueue" where
  "abort k s =
     (case map_of (lanes s) k of
        None \<Rightarrow> (0, s)
      | Some l \<Rightarrow>
          (length (queue l),
           set_lane k (l\<lparr> queue := [] \<rparr>)
             (s\<lparr> settled := settled s @ map (\<lambda>t. (t, Rejected Aborted)) (queue l) \<rparr>)))"

definition getQueueLength :: "LaneQueue \<Rightarrow> string \<Rightarrow> nat" where
  "getQueueLength s k = (case map_of (lanes s) k of None \<Rightarrow> 0 | Some l \<Rightarrow> length (queue l))"

definition isProcessing :: "LaneQueue \<Rightarrow> string \<Rightarrow> bool" where
  "isProcessing s k = (case map_of (lanes s) k of None \<Rightarrow> False | Some l \<Rightarrow> processing l)"

definition getTotalQueueLength :: "LaneQueue \<Rightarrow> nat" where
  "getTotalQueueLength s = foldl (\<lambda>total (k, l). total + length (queue l)) 0 (lanes s)"

definition getActiveCount :: "LaneQueue \<Rightarrow> int" where
  "getActiveCount s = globalConcurrency s"

definition clear_lane :: "string \<Rightarrow> LaneQueue \<Rightarrow> LaneQueue" where
  "clear_lane k s =
     (case map_of (lanes s) k of
        None \<Rightarrow> s
      | Some l \<Rightarrow>
          set_lane k (l\<lparr> queue := [] \<rparr>)
            (s\<lparr> settled := settled s @ map (\<lambda>t. (t, Rejected Cleared)) (queue l) \<rparr>))"

text \<open>
  \<^verbatim>\<open>clear(sessionKey?)\<close> tests \<^verbatim>\<open>if (sessionKey)\<close>: a missing key and the empty string
  both clear every lane.
\<close>

definition clear :: "string option \<Rightarrow> LaneQueue \<Rightarrow> LaneQueue" where
  "clear key_opt s =
     (case key_opt of
        Some k \<Rightarrow> if k \<noteq> [] then clear_lane k s else foldl (\<lambda>s k. clear_lane k s) s (map fst (lanes s))
      | None \<Rightarrow> foldl (\<lambda>s k. clear_lane k s) s (map fst (lanes s)))"

subsection \<open>Runs of the scheduler\<close>

datatype event =
    Enqueue string nat "QueueMode option" "int option" nat
  | Abort string
  | Clear "string option"
  | Settled string race

fun step :: "LaneQueue \<Rightarrow> event \<Rightarrow> LaneQueue" where
  "step s (Enqueue k h m p now) = snd (enqueue k h m p now s)"
| "step s (Abort k) = snd (abort k s)"
| "step s (Clear ko) = clear ko s"
| "step s (Settled k r) = task_settled k r s"

definition run :: "LaneQueueConfig \<Rightarrow> event list \<Rightarrow> LaneQueue" where
  "run c evs = foldl step (new_LaneQueue c) evs"

subsection \<open>Auxiliary definitions for the scheduler proofs\<close>

text \<open>
  The lane of a key, read as \<^verbatim>\<open>getOrCreateLane\<close> would return it (a key without a
  lane has the empty lane), its queue, and the number of processing lanes of the table.
\<close>

definition lane_of :: "LaneQueue \<Rightarrow> string \<Rightarrow> Lane" where
  "lane_of s k = (case map_of (lanes s) k of None \<Rightarrow> empty_lane | Some l \<Rightarrow> l)"

definition queue_of :: "LaneQueue \<Rightarrow> string \<Rightarrow> QueuedTask list" where
  "queue_of s k = queue (lane_of s k)"

definition active_lanes :: "LaneQueue \<Rightarrow> nat" where
  "active_lanes s = length (filter (\<lambda>(k, l). processing l) (lanes s))"

text \<open>Configurations and event sequences on which the theorems are evaluated.\<close>

definition cfg_one :: LaneQueueConfig where
  "cfg_one = \<lparr> cfg_maxConcurrency = Some 1, cfg_maxQueueSize = Some 1, cfg_defaultMode = None,
            cfg_overflowStrategy = Some Drop, cfg_taskTimeoutMs = None \<rparr>"

text \<open>
  The task that an accepted \<^verbatim>\<open>enqueue\<close> makes, and the state after its insertion, just
  before \<^verbatim>\<open>this.processLane(sessionKey)\<close> is called.
\<close>

definition new_task :: "string \<Rightarrow> nat \<Rightarrow> QueueMode option \<Rightarrow> int option \<Rightarrow> nat \<Rightarrow> LaneQueue \<Rightarrow> QueuedTask" where
  "new_task k h mo po now s =
     \<lparr> task_id = taskIdCounter s + 1, sessionKey = k, handler = h,
       mode = (case mo of None \<Rightarrow> defaultMode (config s) | Some m \<Rightarrow> m),
       priority = (case po of None \<Rightarrow> 0 | Some p \<Rightarrow> p), createdAt = now \<rparr>"

definition admitted :: "string \<Rightarrow> nat \<Rightarrow> QueueMode option \<Rightarrow> int option \<Rightarrow> nat \<Rightarrow> LaneQueue \<Rightarrow> LaneQueue" where
  "admitted k h mo po now s =
     (let t = new_task k h mo po now s; l = lane_of s k in
      set_lane k (l\<lparr> queue := insertByPriority (steer_filter (mode t) (queue l)) t \<rparr>)
        ((snd (getOrCreateLane k s))\<lparr> taskIdCounter := taskIdCounter s + 1,
              settled := settled s @ steer_rejected (mode t) (queue l) \<rparr>))"

text \<open>The invariant of the lane table and the counter.\<close>

definition lanes_inv :: "LaneQueue \<Rightarrow> bool" where
  "lanes_inv s \<longleftrightarrow>
     distinct (map fst (lanes s)) \<and>
     globalConcurrency s = int (active_lanes s) \<and>
     globalConcurrency s \<le> int (maxConcurrency (config s)) \<and>
     (\<forall>k l. map_of (lanes s) k = Some l \<longrightarrow> processing l = (currentTask l \<noteq> None))"

definition two_lanes :: "event list" where
  "two_lanes = [Enqueue ''s1'' 0 None None 0, Enqueue ''s2'' 1 None None 0]"

text \<open>
  An outcome is a result when it comes from running the task: its value, its own
  error, or the timeout. \<open>results k p log\<close> lists, in settlement order, the numbers of
  the tasks of lane \<open>k\<close> and priority \<open>p\<close> whose result has settled. The remaining
  definitions state the invariant behind the order of results: a lane's waiting tasks
  are its current task followed by its queue; the queue is in descending priority;
  among waiting tasks of equal priority the numbers increase; and every waiting task
  has a larger number than the settled results of its lane and priority.
\<close>

definition is_result :: "outcome \<Rightarrow> bool" where
  "is_result out =
     (case out of
        Resolved v \<Rightarrow> True
      | Rejected e \<Rightarrow> (case e of HandlerError m \<Rightarrow> True | Timeout \<Rightarrow> True | _ \<Rightarrow> False))"

definition results :: "string \<Rightarrow> int \<Rightarrow> (QueuedTask \<times> outcome) list \<Rightarrow> nat list" where
  "results k p log =
     map (\<lambda>(t, out). task_id t)
       (filter (\<lambda>(t, out). is_result out \<and> sessionKey t = k \<and> priority t = p) log)"

definition pending :: "Lane \<Rightarrow> QueuedTask list" where
  "pending l = (case currentTask l of None \<Rightarrow> [] | Some t \<Rightarrow> [t]) @ queue l"

definition older :: "QueuedTask \<Rightarrow> QueuedTask \<Rightarrow> bool" where
  "older a b \<longleftrightarrow> (priority a = priority b \<longrightarrow> task_id a < task_id b)"

definition lane_ok :: "nat \<Rightarrow> (QueuedTask \<times> outcome) list \<Rightarrow> string \<Rightarrow> Lane \<Rightarrow> bool" where
  "lane_ok n log k l \<longleftrightarrow>
     (\<forall>t \<in> set (pending l). sessionKey t = k \<and> task_id t \<le> n) \<and>
     sorted_wrt (\<lambda>a b. priority b \<le> priority a) (queue l) \<and>
     sorted_wrt older (pending l) \<and>
     (\<forall>u \<in> set (pending l). \<forall>i \<in> set (results k (priority u) log). i < task_id u)"

definition order_inv :: "LaneQueue \<Rightarrow> bool" where
  "order_inv s \<longleftrightarrow>
     (\<forall>(t, out) \<in> set (settled s). task_id t \<le> taskIdCounter s) \<and>
     (\<forall>k l. map_of (lanes s) k = Some l \<longrightarrow> lane_ok (taskIdCounter s) (settled s) k l) \<and>
     (\<forall>k p. sorted_wrt (<) (results k p (settled s)))"

definition cfg_default :: LaneQueueConfig where
  "cfg_default = \<lparr> cfg_maxConcurrency = None, cfg_maxQueueSize = None, cfg_defaultMode = None,
            cfg_overflowStrategy = None, cfg_taskTimeoutMs = None \<rparr>"

definition cfg_wait :: LaneQueueConfig where
  "cfg_wait = \<lparr> cfg_maxConcurrency = Some 1, cfg_maxQueueSize = Some 1, cfg_defaultMode = None,
            cfg_overflowStrategy = Some Wait, cfg_taskTimeoutMs = None \<rparr>"

definition three_queued :: "event list" where
  "three_queued = [Enqueue ''s1'' 0 None None 0, Enqueue ''s1'' 1 None None 0,
                   Enqueue ''s1'' 2 (Some FollowupMode) None 0]"

section \<open>Streaming cards: the response assembler\<close>

text \<open>
  \<^verbatim>\<open>buildStreamingCardsV2\<close> of \<^verbatim>\<open>feishu/formatter.ts\<close>. A JavaScript string is a
  sequence of UTF-16 code units; \<^verbatim>\<open>length\<close> and \<^verbatim>\<open>slice\<close> count code units, so a
  string is a list of code units, each a number below 65536 (the code does no
  arithmetic on them). \<open>asc\<close> embeds an ASCII literal; the other literals of the
  source are written as their code units.
\<close>

type_synonym jsstring = "nat list"

definition asc :: "string \<Rightarrow> jsstring" where
  "asc s = map of_char s"

definition str_done :: jsstring where            \<comment> \<open>the title of a finished response\<close>
  "str_done = [0x54CD, 0x5E94, 0x5B8C, 0x6210]"

definition str_processing :: jsstring where      \<comment> \<open>the title while processing\<close>
  "str_processing = [0x5904, 0x7406, 0x4E2D] @ asc ''...''"

definition str_continued :: jsstring where       \<comment> \<open>the opening of the page marker\<close>
  "str_continued = asc '' ('' @ [0x7EED]"

definition str_reasoning_cut :: jsstring where
  "str_reasoning_cut =
     [0x0A] @ asc ''... ('' @ [0x601D, 0x8003, 0x5185, 0x5BB9, 0x5DF2, 0x622A, 0x65AD] @ asc '')''"

definition str_thinking :: jsstring where
  "str_thinking = [0xD83D, 0xDCAD, 0x20, 0x601D, 0x8003, 0x8FC7, 0x7A0B]"

definition str_error_label :: jsstring where
  "str_error_label = asc ''**'' @ [0x9519, 0x8BEF, 0xFF1A] @ asc ''**''"

definition str_output_cut :: jsstring where
  "str_output_cut = [0x0A] @ asc ''... ('' @ [0x8F93, 0x51FA, 0x5DF2, 0x622A, 0x65AD] @ asc '')''"

definition str_running :: jsstring where         \<comment> \<open>the placeholder of a tool panel\<close>
  "str_running = asc ''*'' @ [0x6267, 0x884C, 0x4E2D] @ asc ''...*''"

definition str_no_content :: jsstring where
  "str_no_content = [0xFF08, 0x65E0, 0x5185, 0x5BB9, 0xFF09]"

definition TRUNCATION_SUFFIX :: jsstring where
  "TRUNCATION_SUFFIX =
     [0x0A, 0x0A] @ asc ''... ('' @ [0x5185, 0x5BB9, 0x5DF2, 0x622A, 0x65AD] @ asc '')''"

definition MAX_CARD_CONTENT_LENGTH :: nat where "MAX_CARD_CONTENT_LENGTH = 28000"
definition MAX_CARD_SIZE :: nat where "MAX_CARD_SIZE = 25000"
definition MAX_REASONING_LENGTH :: nat where "MAX_REASONING_LENGTH = 3000"
definition MAX_TOOL_OUTPUT_LENGTH :: nat where "MAX_TOOL_OUTPUT_LENGTH = 5000"

subsection \<open>What the code takes from its platform\<close>

text \<open>
  The library functions the code calls and does not define: \<^verbatim>\<open>String.toLowerCase\<close>
  and \<^verbatim>\<open>isAbsolute\<close> and \<^verbatim>\<open>resolve\<close> of \<^verbatim>\<open>node:path\<close>. They are parameters of
  the model. The one piece of ambient state the code reads is the working directory
  that \<^verbatim>\<open>process.cwd()\<close> returns; it is a parameter too.
\<close>

record platform =
  toLowerCase :: "jsstring \<Rightarrow> jsstring"
  isAbsolute :: "jsstring \<Rightarrow> bool"
  resolve :: "jsstring \<Rightarrow> jsstring \<Rightarrow> jsstring"

record process =
  cwd :: jsstring

subsection \<open>Strings\<close>

fun starts_with :: "'a list \<Rightarrow> 'a list \<Rightarrow> bool" where
  "starts_with xs [] = True"
| "starts_with [] (y # ys) = False"
| "starts_with (x # xs) (y # ys) = (x = y \<and> starts_with xs ys)"

text \<open>\<^verbatim>\<open>String.includes\<close>: the second string occurs in the first.\<close>

fun str_includes :: "'a list \<Rightarrow> 'a list \<Rightarrow> bool" where
  "str_includes [] sub = (sub = [])"
| "str_includes (x # xs) sub = (starts_with (x # xs) sub \<or> str_includes xs sub)"

text \<open>\<^verbatim>\<open>Array.join\<close>.\<close>

fun join :: "'a list \<Rightarrow> 'a list list \<Rightarrow> 'a list" where
  "join sep [] = []"
| "join sep [x] = x"
| "join sep (x # y # ys) = x @ sep @ join sep (y # ys)"

text \<open>
  The white space and line terminators that \<^verbatim>\<open>String.trim\<close> removes at both ends.
\<close>

definition is_white_space :: "nat \<Rightarrow> bool" where
  "is_white_space c \<longleftrightarrow>
     c \<in> {0x09, 0x0A, 0x0B, 0x0C, 0x0D, 0x20, 0xA0, 0x1680, 0x2028, 0x2029, 0x202F,
          0x205F, 0x3000, 0xFEFF} \<or> (0x2000 \<le> c \<and> c \<le> 0x200A)"

definition trim :: "jsstring \<Rightarrow> jsstring" where
  "trim s = rev (dropWhile is_white_space (rev (dropWhile is_white_space s)))"

text \<open>The decimal digits of a number, as a template literal renders it.\<close>

fun decimal :: "nat \<Rightarrow> jsstring" where
  "decimal n = (if n < 10 then [0x30 + n] else decimal (n div 10) @ [0x30 + n mod 10])"

text \<open>A value that is a string and not empty is truthy; \<^verbatim>\<open>undefined\<close> is not.\<close>

definition truthy :: "jsstring option \<Rightarrow> bool" where
  "truthy v = (case v of None \<Rightarrow> False | Some s \<Rightarrow> s \<noteq> [])"

subsection \<open>JSON.stringify and the size estimate\<close>

datatype json =
    JString jsstring
  | JBool bool
  | JArray "json list"
  | JObject "(string \<times> json) list"

definition hex_digit :: "nat \<Rightarrow> nat" where
  "hex_digit d = (if d < 10 then 0x30 + d else 0x61 + (d - 10))"

definition unicode_escape :: "nat \<Rightarrow> jsstring" where
  "unicode_escape c =
     [0x5C, 0x75] @ [hex_digit (c div 4096), hex_digit (c div 256 mod 16),
                   hex_digit (c div 16 mod 16), hex_digit (c mod 16)]"

definition is_leading_surrogate :: "nat \<Rightarrow> bool" where
  "is_leading_surrogate c \<longleftrightarrow> 0xD800 \<le> c \<and> c \<le> 0xDBFF"

definition is_trailing_surrogate :: "nat \<Rightarrow> bool" where
  "is_trailing_surrogate c \<longleftrightarrow> 0xDC00 \<le> c \<and> c \<le> 0xDFFF"

text \<open>One code unit that is not half of a surrogate pair, as \<^verbatim>\<open>QuoteJSONString\<close> writes it.\<close>

definition quote_unit :: "nat \<Rightarrow> jsstring" where
  "quote_unit c =
     (if c = 0x08 then [0x5C, 0x62]
      else if c = 0x09 then [0x5C, 0x74]
      else if c = 0x0A then [0x5C, 0x6E]
      else if c = 0x0C then [0x5C, 0x66]
      else if c = 0x0D then [0x5C, 0x72]
      else if c = 0x22 then [0x5C, 0x22]
      else if c = 0x5C then [0x5C, 0x5C]
      else if c < 0x20 \<or> is_leading_surrogate c \<or> is_trailing_surrogate c then unicode_escape c
      else [c])"

fun quote_body :: "jsstring \<Rightarrow> jsstring" where
  "quote_body [] = []"
| "quote_body [c] = quote_unit c"
| "quote_body (c # d # cs) =
     (if is_leading_surrogate c \<and> is_trailing_surrogate d then c # d # quote_body cs
      else quote_unit c @ quote_body (d # cs))"

definition quote :: "jsstring \<Rightarrow> jsstring" where
  "quote s = [0x22] @ quote_body s @ [0x22]"

fun stringify :: "json \<Rightarrow> jsstring" where
  "stringify (JString s) = quote s"
| "stringify (JBool b) = (if b then asc ''true'' else asc ''false'')"
| "stringify (JArray xs) = asc ''['' @ join (asc '','') (map stringify xs) @ asc '']''"
| "stringify (JObject kvs) =
     asc ''{'' @ join (asc '','') (map (\<lambda>kv. quote (asc (fst kv)) @ asc '':'' @ stringify (snd kv)) kvs)
       @ asc ''}''"

text \<open>
  The elements the builder makes: a collapsed panel with a title and a body, a
  markdown block, a divider. \<open>element_json\<close> is the object literal of the source,
  with its properties in source order.
\<close>

datatype element =
    Panel jsstring "element list"
  | Markdown jsstring
  | Hr

fun element_json :: "element \<Rightarrow> json" where
  "element_json (Panel t es) =
     JObject [(''tag'', JString (asc ''collapsible_panel'')),
              (''expanded'', JBool False),
              (''header'', JObject [(''title'',
                  JObject [(''tag'', JString (asc ''plain_text'')), (''content'', JString t)])]),
              (''elements'', JArray (map element_json es))]"
| "element_json (Markdown c) =
     JObject [(''tag'', JString (asc ''markdown'')), (''content'', JString c)]"
| "element_json Hr = JObject [(''tag'', JString (asc ''hr''))]"

definition estimateElementSize :: "element \<Rightarrow> nat" where
  "estimateElementSize e = length (stringify (element_json e))"

subsection \<open>Formatting\<close>

definition isPathKey :: "platform \<Rightarrow> jsstring \<Rightarrow> bool" where
  "isPathKey lib key =
     (let lowerKey = toLowerCase lib key
      in str_includes lowerKey (asc ''path'') \<or> str_includes lowerKey (asc ''file'')
         \<or> lowerKey = asc ''workdir'')"

definition ensureAbsolutePath :: "platform \<Rightarrow> process \<Rightarrow> jsstring \<Rightarrow> jsstring" where
  "ensureAbsolutePath lib proc v =
     (if isAbsolute lib v then v else resolve lib (cwd proc) v)"

text \<open>
  A value of a tool input: \<^verbatim>\<open>undefined\<close>, \<^verbatim>\<open>null\<close>, a string, or any other value,
  which the code only passes to \<^verbatim>\<open>JSON.stringify\<close> and which is carried here as the
  text that call returns. An input is the list that \<^verbatim>\<open>Object.entries\<close> gives.
\<close>

datatype jsvalue = VUndefined | VNull | VString jsstring | VOther jsstring

definition clip100 :: "jsstring \<Rightarrow> jsstring" where
  "clip100 s = (if length s > 100 then take 100 s @ asc ''...'' else s)"

fun input_line :: "platform \<Rightarrow> process \<Rightarrow> jsstring \<times> jsvalue \<Rightarrow> jsstring option" where
  "input_line lib proc (key, VUndefined) = None"
| "input_line lib proc (key, VNull) = None"
| "input_line lib proc (key, VString v) =
     (let processedValue = (if isPathKey lib key \<and> trim v \<noteq> [] then ensureAbsolutePath lib proc v else v)
      in Some (asc ''**'' @ key @ asc ''**: `'' @ clip100 processedValue @ asc ''`''))"
| "input_line lib proc (key, VOther j) =
     Some (asc ''**'' @ key @ asc ''**: `'' @ clip100 j @ asc ''`'')"

definition formatToolInput :: "platform \<Rightarrow> process \<Rightarrow> (jsstring \<times> jsvalue) list \<Rightarrow> jsstring" where
  "formatToolInput lib proc input = join [0x0A] (List.map_filter (input_line lib proc) input)"

text \<open>
  \<^verbatim>\<open>text.replace(/```/g, '` ` `')\<close>: from left to right, each run of three backticks
  that does not overlap an earlier match is replaced; the replacement is not scanned
  again.
\<close>

fun escapeCodeBlockContent :: "jsstring \<Rightarrow> jsstring" where
  "escapeCodeBlockContent (a # b # c # rest) =
     (if a = 0x60 \<and> b = 0x60 \<and> c = 0x60
      then [0x60, 0x20, 0x60, 0x20, 0x60] @ escapeCodeBlockContent rest
      else a # escapeCodeBlockContent (b # c # rest))"
| "escapeCodeBlockContent s = s"

definition getStatusEmoji :: "platform \<Rightarrow> jsstring \<Rightarrow> jsstring" where
  "getStatusEmoji lib status =
     (let s = toLowerCase lib status in
      if s = asc ''running'' \<or> s = asc ''pending'' then [0x23F3]
      else if s = asc ''completed'' \<or> s = asc ''complete'' \<or> s = asc ''success'' then [0x2705]
      else if s = asc ''error'' \<or> s = asc ''failed'' then [0x274C]
      else [0xD83D, 0xDD27])"

definition truncateContent :: "jsstring \<Rightarrow> jsstring" where
  "truncateContent content =
     (if length content \<le> MAX_CARD_CONTENT_LENGTH then content
      else take (MAX_CARD_CONTENT_LENGTH - length TRUNCATION_SUFFIX) content @ TRUNCATION_SUFFIX)"

subsection \<open>Parts and groups\<close>

datatype PartType = TextPart | ReasoningPart | ToolCallPart

record OrderedPart =
  p_type :: PartType
  p_text :: "jsstring option"
  p_name :: "jsstring option"
  p_state :: "jsstring option"
  p_title :: "jsstring option"
  p_input :: "(jsstring \<times> jsvalue) list option"
  p_output :: "jsstring option"
  p_error :: "jsstring option"

record PartGroup =
  g_type :: PartType
  g_parts :: "OrderedPart list"

definition add_part :: "PartGroup list \<Rightarrow> OrderedPart \<Rightarrow> PartGroup list" where
  "add_part groups part =
     (if groups \<noteq> [] \<and> g_type (last groups) = p_type part
      then butlast groups @ [(last groups)\<lparr> g_parts := g_parts (last groups) @ [part] \<rparr>]
      else groups @ [\<lparr> g_type = p_type part, g_parts = [part] \<rparr>])"

definition groupConsecutiveParts :: "OrderedPart list \<Rightarrow> PartGroup list" where
  "groupConsecutiveParts parts = foldl add_part [] parts"

subsection \<open>The builder\<close>

datatype CardTemplate =
  Blue | Wathet | Turquoise | Green | Yellow | Orange | Red | Carmine | Violet | Purple
  | Indigo | Grey

record card =
  schema :: jsstring
  card_title :: jsstring
  template :: CardTemplate
  card_elements :: "element list"

text \<open>The variables that the closures of \<^verbatim>\<open>buildStreamingCardsV2\<close> share.\<close>

record builder =
  cards :: "card list"
  currentElements :: "element list"
  currentSize :: nat
  cardIndex :: nat
  reasoningIndex :: nat

definition createCard :: "bool \<Rightarrow> jsstring option \<Rightarrow> nat \<Rightarrow> element list \<Rightarrow> bool \<Rightarrow> card" where
  "createCard isComplete title idx elements isFinal =
     (let tmpl = (if isFinal \<and> isComplete then Green else Wathet);
          headerTitle = (case title of
                           Some t \<Rightarrow> t
                         | None \<Rightarrow> if isFinal \<and> isComplete then str_done else str_processing);
          cardTitle = (if idx > 0 then headerTitle @ str_continued @ decimal idx @ asc '')''
                       else headerTitle)
      in \<lparr> schema = asc ''2.0'', card_title = cardTitle, template = tmpl,
           card_elements = elements \<rparr>)"

definition flushCard :: "bool \<Rightarrow> jsstring option \<Rightarrow> builder \<Rightarrow> builder" where
  "flushCard isComplete title b =
     (if length (currentElements b) > 0
      then b\<lparr> cards := cards b @ [createCard isComplete title (cardIndex b) (currentElements b) False],
              cardIndex := cardIndex b + 1, currentElements := [], currentSize := 0 \<rparr>
      else b)"

definition addElement :: "bool \<Rightarrow> jsstring option \<Rightarrow> builder \<Rightarrow> element \<Rightarrow> builder" where
  "addElement isComplete title b element =
     (let elementSize = estimateElementSize element;
          b1 = (if currentSize b + elementSize > MAX_CARD_SIZE \<and> length (currentElements b) > 0
                then flushCard isComplete title b else b)
      in b1\<lparr> currentElements := currentElements b1 @ [element],
               currentSize := currentSize b1 + elementSize \<rparr>)"

text \<open>The texts of a group that are strings and not empty.\<close>

definition group_texts :: "PartGroup \<Rightarrow> jsstring list" where
  "group_texts g = List.map_filter (\<lambda>p. if truthy (p_text p) then p_text p else None) (g_parts g)"

definition reasoning_element :: "nat \<Rightarrow> nat \<Rightarrow> jsstring list \<Rightarrow> element" where
  "reasoning_element n_reasoning_groups idx reasoningTexts =
     (let joined = join [0x0A, 0x0A] reasoningTexts;
          combinedText = (if length joined > MAX_REASONING_LENGTH
                          then take MAX_REASONING_LENGTH joined @ str_reasoning_cut else joined);
          panelTitle = (if n_reasoning_groups > 1 then str_thinking @ asc '' '' @ decimal idx
                        else str_thinking)
      in Panel panelTitle
           [Markdown (asc ''```'' @ [0x0A] @ escapeCodeBlockContent combinedText @ [0x0A] @ asc ''```'')])"

text \<open>The body of a tool panel, before the placeholder is put in for an empty one.\<close>

definition toolElements :: "platform \<Rightarrow> process \<Rightarrow> OrderedPart \<Rightarrow> element list" where
  "toolElements lib proc tool =
     (case p_input tool of
        None \<Rightarrow> []
      | Some input \<Rightarrow>
          if length input > 0 \<and> formatToolInput lib proc input \<noteq> []
          then [Markdown (formatToolInput lib proc input)] else [])
     @
     (if truthy (p_error tool) then
        [Markdown (str_error_label @ [0x0A] @ asc ''```'' @ [0x0A]
                   @ escapeCodeBlockContent (the (p_error tool)) @ [0x0A] @ asc ''```'')]
      else if truthy (p_output tool) then
        (let outputText = (if length (the (p_output tool)) > MAX_TOOL_OUTPUT_LENGTH
                           then take MAX_TOOL_OUTPUT_LENGTH (the (p_output tool)) @ str_output_cut
                           else the (p_output tool))
         in [Markdown (asc ''```'' @ [0x0A] @ escapeCodeBlockContent outputText @ [0x0A] @ asc ''```'')])
      else [])"

definition tool_element :: "platform \<Rightarrow> process \<Rightarrow> OrderedPart \<Rightarrow> element" where
  "tool_element lib proc tool =
     (let emoji = getStatusEmoji lib (case p_state tool of None \<Rightarrow> asc ''pending'' | Some s \<Rightarrow> s);
          panelTitle = (if truthy (p_title tool) then the (p_title tool) else the (p_name tool))
      in Panel (emoji @ asc '' '' @ panelTitle)
           (if length (toolElements lib proc tool) > 0 then toolElements lib proc tool
            else [Markdown str_running]))"

definition render_tool ::
  "platform \<Rightarrow> process \<Rightarrow> bool \<Rightarrow> jsstring option \<Rightarrow> builder \<Rightarrow> OrderedPart \<Rightarrow> builder" where
  "render_tool lib proc isComplete title b tool =
     (if \<not> truthy (p_name tool) then b
      else addElement isComplete title b (tool_element lib proc tool))"

definition render_group ::
  "platform \<Rightarrow> process \<Rightarrow> bool \<Rightarrow> jsstring option \<Rightarrow> nat \<Rightarrow> builder \<Rightarrow> PartGroup \<Rightarrow> builder" where
  "render_group lib proc isComplete title n_reasoning_groups b g =
     (case g_type g of
        ReasoningPart \<Rightarrow>
          (let b1 = b\<lparr> reasoningIndex := reasoningIndex b + 1 \<rparr> in
           if length (group_texts g) = 0 then b1
           else addElement isComplete title b1
                  (reasoning_element n_reasoning_groups (reasoningIndex b1) (group_texts g)))
      | ToolCallPart \<Rightarrow> foldl (render_tool lib proc isComplete title) b (g_parts g)
      | TextPart \<Rightarrow>
          if length (group_texts g) = 0 then b
          else
            (let b1 = (if length (currentElements b) > 0 then addElement isComplete title b Hr else b)
             in addElement isComplete title b1
                  (Markdown (truncateContent (join [0x0A, 0x0A] (group_texts g))))))"

definition new_builder :: builder where
  "new_builder = \<lparr> cards = [], currentElements = [], currentSize = 0, cardIndex = 0,
                    reasoningIndex = 0 \<rparr>"

definition buildStreamingCardsV2 ::
  "platform \<Rightarrow> process \<Rightarrow> OrderedPart list \<Rightarrow> bool \<Rightarrow> jsstring option \<Rightarrow> card list" where
  "buildStreamingCardsV2 lib proc parts isComplete title =
     (let groups = groupConsecutiveParts parts;
          n_reasoning_groups = length (filter (\<lambda>g. g_type g = ReasoningPart) groups);
          b = foldl (render_group lib proc isComplete title n_reasoning_groups) new_builder groups;
          final_elements =
            (if length (currentElements b) = 0
             then [Markdown (if isComplete then str_no_content else asc ''...'')]
             else currentElements b)
      in cards b @ [createCard isComplete title (cardIndex b) final_elements True])"

text \<open>The source returns the artifacts with the constant \<^verbatim>\<open>hasMore: false\<close>.\<close>

subsection \<open>Auxiliary definitions for the card proofs\<close>

text \<open>
  The title of the artifact at position \<open>i\<close> over the header \<open>h\<close>, as \<^verbatim>\<open>createCard\<close>
  composes it; the header of a sealed and of the final artifact; the size the builder
  accumulates for a list of elements; and the invariant of the builder variables.
  Then a platform on which the theorems are evaluated (ASCII case mapping, POSIX paths
  without dot segments), a process, and some fragments.
\<close>

definition page_title :: "jsstring \<Rightarrow> nat \<Rightarrow> jsstring" where
  "page_title h i = (if i > 0 then h @ str_continued @ decimal i @ asc '')'' else h)"

definition sealed_header :: "jsstring option \<Rightarrow> jsstring" where
  "sealed_header title = (case title of Some t \<Rightarrow> t | None \<Rightarrow> str_processing)"

definition final_header :: "bool \<Rightarrow> jsstring option \<Rightarrow> jsstring" where
  "final_header isComplete title =
     (case title of Some t \<Rightarrow> t | None \<Rightarrow> if isComplete then str_done else str_processing)"

definition elements_size :: "element list \<Rightarrow> nat" where
  "elements_size es = sum_list (map estimateElementSize es)"

definition within_bound :: "element list \<Rightarrow> bool" where
  "within_bound es \<longleftrightarrow> elements_size es \<le> MAX_CARD_SIZE \<or> length es = 1"

definition builder_inv :: "bool \<Rightarrow> jsstring option \<Rightarrow> builder \<Rightarrow> bool" where
  "builder_inv isComplete title b \<longleftrightarrow>
     length (cards b) = cardIndex b \<and>
     (\<forall>i < length (cards b).
        card_title (cards b ! i) = page_title (sealed_header title) i \<and>
        template (cards b ! i) = Wathet \<and>
        within_bound (card_elements (cards b ! i))) \<and>
     currentSize b = elements_size (currentElements b) \<and>
     (currentSize b \<le> MAX_CARD_SIZE \<or> length (currentElements b) \<le> 1)"

definition ascii_lower :: "nat \<Rightarrow> nat" where
  "ascii_lower c = (if 0x41 \<le> c \<and> c \<le> 0x5A then c + 0x20 else c)"

definition posix_ascii :: platform where
  "posix_ascii = \<lparr> toLowerCase = map ascii_lower,
                    isAbsolute = (\<lambda>p. starts_with p (asc ''/'')),
                    resolve = (\<lambda>d p. d @ asc ''/'' @ p) \<rparr>"

definition proc0 :: process where
  "proc0 = \<lparr> cwd = asc ''/srv/bot'' \<rparr>"

definition text_part :: "jsstring \<Rightarrow> OrderedPart" where
  "text_part s = \<lparr> p_type = TextPart, p_text = Some s, p_name = None, p_state = None,
     p_title = None, p_input = None, p_output = None, p_error = None \<rparr>"

definition tool_part ::
  "jsstring \<Rightarrow> jsstring option \<Rightarrow> (jsstring \<times> jsvalue) list option \<Rightarrow> jsstring option
     \<Rightarrow> jsstring option \<Rightarrow> OrderedPart" where
  "tool_part n st inp out err =
     \<lparr> p_type = ToolCallPart, p_text = None, p_name = Some n, p_state = st,
       p_title = None, p_input = inp, p_output = out, p_error = err \<rparr>"

definition big_text :: jsstring where
  "big_text = replicate 25000 0x61"

fun panel_body :: "element \<Rightarrow> element list" where
  "panel_body (Panel t es) = es"
| "panel_body (Markdown c) = []"
| "panel_body Hr = []"

definition two_page_parts :: "OrderedPart list" where
  "two_page_parts = [tool_part (asc ''t'') None None None None, text_part big_text]"

definition ls_tool :: OrderedPart where
  "ls_tool = tool_part (asc ''bash'') (Some (asc ''running''))
               (Some [(asc ''command'', VString (asc ''ls''))]) None None"

definition backtick_tool :: OrderedPart where
  "backtick_tool = tool_part (asc ''bash'') (Some (asc ''completed'')) None
                     (Some (asc ''`````'')) None"

lemma set_lane_simps [simp]:
  "map_of (lanes (set_lane k l s)) = (map_of (lanes s))(k \<mapsto> l)"
  "globalConcurrency (set_lane k l s) = globalConcurrency s"
  "config (set_lane k l s) = config s"
  "taskIdCounter (set_lane k l s) = taskIdCounter s"
  "settled (set_lane k l s) = settled s"
  by (simp_all add: set_lane_def update_conv')

lemma lane_of_set_lane [simp]:
  "lane_of (set_lane k l s) k' = (if k' = k then l else lane_of s k')"
  by (simp add: lane_of_def)

lemma processLane_fields [simp]:
  "config (processLane k s) = config s"
  "taskIdCounter (processLane k s) = taskIdCounter s"
  "settled (processLane k s) = settled s"
  by (simp_all add: processLane_def split: option.splits)

lemma processLane_other:
  "k' \<noteq> k \<Longrightarrow> map_of (lanes (processLane k s)) k' = map_of (lanes s) k'"
  by (simp add: processLane_def split: option.splits)

lemmas op_defs = enqueue_def getOrCreateLane_def
     set_lane_def overflow_error_def steer_filter_def steer_rejected_def processLane_def
     abort_def empty_lane_def clear_def clear_lane_def task_settled_def pump_finally_def
     cleanupEmptyLane_def tryProcessPendingLanes_def race_outcome_def Let_def

lemmas sched_defs = run_def new_LaneQueue_def required_def op_defs

lemma two_lanes_state:
  "run cfg_one two_lanes =
     \<lparr> lanes = [(''s1'', \<lparr> queue = [], processing = True,
                 currentTask = Some \<lparr> task_id = 1, sessionKey = ''s1'', handler = 0,
                    mode = CollectMode, priority = 0, createdAt = 0 \<rparr> \<rparr>),
               (''s2'', \<lparr> queue = [\<lparr> task_id = 2, sessionKey = ''s2'', handler = 1,
                    mode = CollectMode, priority = 0, createdAt = 0 \<rparr>],
                 processing = False, currentTask = None \<rparr>)],
       globalConcurrency = 1,
       config = \<lparr> maxConcurrency = 1, maxQueueSize = 1, defaultMode = CollectMode,
                  overflowStrategy = Drop, taskTimeoutMs = 300000 \<rparr>,
       taskIdCounter = 2, settled = [] \<rparr>"
  by (simp add: sched_defs cfg_one_def two_lanes_def)

lemma three_queued_state:
  "run cfg_wait three_queued =
     \<lparr> lanes = [(''s1'', \<lparr> queue = [\<lparr> task_id = 2, sessionKey = ''s1'', handler = 1,
                    mode = CollectMode, priority = 0, createdAt = 0 \<rparr>,
                   \<lparr> task_id = 3, sessionKey = ''s1'', handler = 2,
                    mode = FollowupMode, priority = 0, createdAt = 0 \<rparr>],
                 processing = True,
                 currentTask = Some \<lparr> task_id = 1, sessionKey = ''s1'', handler = 0,
                    mode = CollectMode, priority = 0, createdAt = 0 \<rparr> \<rparr>)],
       globalConcurrency = 1,
       config = \<lparr> maxConcurrency = 1, maxQueueSize = 1, defaultMode = CollectMode,
                  overflowStrategy = Wait, taskTimeoutMs = 300000 \<rparr>,
       taskIdCounter = 3, settled = [] \<rparr>"
  by (simp add: sched_defs cfg_wait_def three_queued_def)

subsection \<open>Operations on a key without a lane\<close>

text \<open>
  Claim C10. For a key that has no lane in the lane table, \<^verbatim>\<open>abort(key)\<close> returns 0 and
  leaves the whole scheduler state as it was (no task is rejected, no lane is made),
  \<^verbatim>\<open>getQueueLength(key)\<close> is 0 and \<^verbatim>\<open>isProcessing(key)\<close> is false. In the model an
  operation that raised would return an error value; these return plain values.
\<close>

theorem abort_missing_lane:
  "map_of (lanes s) k = None \<Longrightarrow>
     abort k s = (0, s) \<and> getQueueLength s k = 0 \<and> isProcessing s k = False"
  by (simp add: abort_def getQueueLength_def isProcessing_def)

theorem abort_missing_lane_witness:
  "map_of (lanes (run cfg_one [Enqueue ''s1'' 0 None None 0])) ''s2'' = None \<and>
   abort ''s2'' (run cfg_one [Enqueue ''s1'' 0 None None 0])
     = (0, run cfg_one [Enqueue ''s1'' 0 None None 0]) \<and>
   getQueueLength (run cfg_one [Enqueue ''s1'' 0 None None 0]) ''s2'' = 0 \<and>
   isProcessing (run cfg_one [Enqueue ''s1'' 0 None None 0]) ''s2'' = False"
proof -
  have h: "map_of (lanes (run cfg_one [Enqueue ''s1'' 0 None None 0])) ''s2'' = None"
    by (simp add: sched_defs cfg_one_def)
  show ?thesis using h abort_missing_lane [OF h] by blast
qed

lemma getOrCreateLane_fst: "fst (getOrCreateLane k s) = lane_of s k"
  by (simp add: getOrCreateLane_def lane_of_def split: option.splits)

lemma getOrCreateLane_snd_fields [simp]:
  "globalConcurrency (snd (getOrCreateLane k s)) = globalConcurrency s"
  "config (snd (getOrCreateLane k s)) = config s"
  "taskIdCounter (snd (getOrCreateLane k s)) = taskIdCounter s"
  "settled (snd (getOrCreateLane k s)) = settled s"
  by (simp_all add: getOrCreateLane_def split: option.splits)

lemma getOrCreateLane_lane_of [simp]:
  "lane_of (snd (getOrCreateLane k s)) k' = lane_of s k'"
  by (simp add: getOrCreateLane_def lane_of_def split: option.splits)

lemma getOrCreateLane_other:
  "k' \<noteq> k \<Longrightarrow> map_of (lanes (snd (getOrCreateLane k s))) k' = map_of (lanes s) k'"
  by (simp add: getOrCreateLane_def split: option.splits)

lemma enqueue_refused:
  "overflow_error (config s) k (lane_of s k) = Some e \<Longrightarrow>
     enqueue k h mo po now s = (Inl e, snd (getOrCreateLane k s))"
  by (simp add: enqueue_def Let_def split_beta getOrCreateLane_fst)

lemma enqueue_accepted:
  "overflow_error (config s) k (lane_of s k) = None \<Longrightarrow>
     enqueue k h mo po now s =
       (Inr (new_task k h mo po now s), processLane k (admitted k h mo po now s))"
  by (simp add: enqueue_def Let_def split_beta getOrCreateLane_fst admitted_def new_task_def)

lemma insertByPriority_nonempty [simp]: "insertByPriority q t \<noteq> []"
  by (cases q) simp_all

lemma length_insertByPriority [simp]: "length (insertByPriority q t) = Suc (length q)"
  by (induction q) simp_all

lemma processLane_lane:
  "map_of (lanes s) k = Some l \<Longrightarrow>
   lane_of (processLane k s) k =
     (if \<not> processing l \<and> queue l \<noteq> [] \<and> globalConcurrency s < int (maxConcurrency (config s))
      then l\<lparr> processing := True, queue := tl (queue l), currentTask := Some (hd (queue l)) \<rparr>
      else l)"
  by (simp add: processLane_def lane_of_def)

lemma processLane_lane_other:
  "k' \<noteq> k \<Longrightarrow> lane_of (processLane k s) k' = lane_of s k'"
  by (simp add: lane_of_def processLane_other)

lemma processLane_globalConcurrency:
  "map_of (lanes s) k = Some l \<Longrightarrow>
   globalConcurrency (processLane k s) =
     (if \<not> processing l \<and> queue l \<noteq> [] \<and> globalConcurrency s < int (maxConcurrency (config s))
      then globalConcurrency s + 1 else globalConcurrency s)"
  by (simp add: processLane_def)

lemma admitted_fields [simp]:
  "globalConcurrency (admitted k h mo po now s) = globalConcurrency s"
  "config (admitted k h mo po now s) = config s"
  "taskIdCounter (admitted k h mo po now s) = taskIdCounter s + 1"
  "settled (admitted k h mo po now s) =
     settled s @ steer_rejected (mode (new_task k h mo po now s)) (queue_of s k)"
  by (simp_all add: admitted_def Let_def queue_of_def)

lemma admitted_lane:
  "map_of (lanes (admitted k h mo po now s)) k =
     Some ((lane_of s k)\<lparr> queue :=
       insertByPriority (steer_filter (mode (new_task k h mo po now s)) (queue_of s k))
         (new_task k h mo po now s) \<rparr>)"
  by (simp add: admitted_def Let_def queue_of_def)

lemma admitted_other:
  "k' \<noteq> k \<Longrightarrow> map_of (lanes (admitted k h mo po now s)) k' = map_of (lanes s) k'"
  by (simp add: admitted_def Let_def getOrCreateLane_other)

lemma overflow_error_full:
  "length (queue l) \<ge> maxQueueSize c \<Longrightarrow>
   overflow_error c k l =
     (case overflowStrategy c of Drop \<Rightarrow> Some (OverflowDropped k)
        | Reject \<Rightarrow> Some (QueueFull k) | Wait \<Rightarrow> None)"
  by (simp add: overflow_error_def)

subsection \<open>Overflow\<close>

text \<open>
  Claim C6. An \<^verbatim>\<open>enqueue\<close> on a lane whose queue length has reached
  \<^verbatim>\<open>maxQueueSize\<close> (a lane not yet in the table has the empty queue):
  with the strategy \<^verbatim>\<open>drop\<close> or \<^verbatim>\<open>reject\<close> the call fails at once with the overflow
  error of that strategy and every lane (queue, flag and current task), the settlement
  record, the task counter and the concurrency counter are as before, so the new task
  is never inserted and no queued task is disturbed; with \<^verbatim>\<open>wait\<close> the call makes
  the task and inserts it by priority, whatever the queue length. If the lane is
  processing or the ceiling is reached the queue is then the old queue with the new
  task inserted, one longer than before (outside steer mode) and so beyond
  \<^verbatim>\<open>maxQueueSize\<close>; otherwise the pump starts at once and takes the front task.
\<close>

theorem enqueue_overflow:
  assumes full: "length (queue_of s k) \<ge> maxQueueSize (config s)"
  shows
    "(overflowStrategy (config s) = Drop \<longrightarrow>
        fst (enqueue k h mo po now s) = Inl (OverflowDropped k)) \<and>
     (overflowStrategy (config s) = Reject \<longrightarrow>
        fst (enqueue k h mo po now s) = Inl (QueueFull k)) \<and>
     (overflowStrategy (config s) \<noteq> Wait \<longrightarrow>
        (\<forall>k'. lane_of (snd (enqueue k h mo po now s)) k' = lane_of s k') \<and>
        settled (snd (enqueue k h mo po now s)) = settled s \<and>
        taskIdCounter (snd (enqueue k h mo po now s)) = taskIdCounter s \<and>
        globalConcurrency (snd (enqueue k h mo po now s)) = globalConcurrency s) \<and>
     (overflowStrategy (config s) = Wait \<longrightarrow>
        (let t = new_task k h mo po now s;
             q = insertByPriority (steer_filter (mode t) (queue_of s k)) t;
             s' = snd (enqueue k h mo po now s)
         in fst (enqueue k h mo po now s) = Inr t \<and>
            (if processing (lane_of s k) \<or> globalConcurrency s \<ge> int (maxConcurrency (config s))
             then queue_of s' k = q \<and> currentTask (lane_of s' k) = currentTask (lane_of s k)
             else queue_of s' k = tl q \<and> currentTask (lane_of s' k) = Some (hd q)) \<and>
            (mode t \<noteq> SteerMode \<longrightarrow> length q = length (queue_of s k) + 1)))"
proof -
  have ov: "overflow_error (config s) k (lane_of s k) =
     (case overflowStrategy (config s) of Drop \<Rightarrow> Some (OverflowDropped k)
        | Reject \<Rightarrow> Some (QueueFull k) | Wait \<Rightarrow> None)"
    using full by (simp add: overflow_error_full queue_of_def)
  show ?thesis
  proof (cases "overflowStrategy (config s)")
    case Drop
    with ov have "enqueue k h mo po now s = (Inl (OverflowDropped k), snd (getOrCreateLane k s))"
      by (simp add: enqueue_refused)
    with Drop show ?thesis by simp
  next
    case Reject
    with ov have "enqueue k h mo po now s = (Inl (QueueFull k), snd (getOrCreateLane k s))"
      by (simp add: enqueue_refused)
    with Reject show ?thesis by simp
  next
    case Wait
    with ov have acc: "enqueue k h mo po now s =
        (Inr (new_task k h mo po now s), processLane k (admitted k h mo po now s))"
      by (simp add: enqueue_accepted)
    show ?thesis
      using Wait
      by (simp add: acc Let_def queue_of_def processLane_lane [OF admitted_lane]
            steer_filter_def)
  qed
qed

theorem enqueue_overflow_witness:
  "maxQueueSize (config (run cfg_one two_lanes)) \<le> length (queue_of (run cfg_one two_lanes) ''s2'') \<and>
   overflowStrategy (config (run cfg_one two_lanes)) = Drop \<and>
   fst (enqueue ''s2'' 2 None None 0 (run cfg_one two_lanes)) = Inl (OverflowDropped ''s2'') \<and>
   settled (snd (enqueue ''s2'' 2 None None 0 (run cfg_one two_lanes))) = settled (run cfg_one two_lanes) \<and>
   maxQueueSize (config (run cfg_wait three_queued)) \<le> length (queue_of (run cfg_wait three_queued) ''s1'') \<and>
   overflowStrategy (config (run cfg_wait three_queued)) = Wait \<and>
   map task_id (queue_of (snd (enqueue ''s1'' 3 None None 0 (run cfg_wait three_queued))) ''s1'')
     = [2, 3, 4]"
proof -
  have a: "maxQueueSize (config (run cfg_one two_lanes)) \<le> length (queue_of (run cfg_one two_lanes) ''s2'')"
    by (simp add: two_lanes_state queue_of_def lane_of_def)
  have b: "overflowStrategy (config (run cfg_one two_lanes)) = Drop"
    by (simp add: two_lanes_state)
  have c: "maxQueueSize (config (run cfg_wait three_queued)) \<le> length (queue_of (run cfg_wait three_queued) ''s1'')"
    by (simp add: three_queued_state queue_of_def lane_of_def)
  have d: "overflowStrategy (config (run cfg_wait three_queued)) = Wait"
    "processing (lane_of (run cfg_wait three_queued) ''s1'')"
    "queue_of (run cfg_wait three_queued) ''s1'' =
      [\<lparr> task_id = 2, sessionKey = ''s1'', handler = 1,
                    mode = CollectMode, priority = 0, createdAt = 0 \<rparr>,
                   \<lparr> task_id = 3, sessionKey = ''s1'', handler = 2,
                    mode = FollowupMode, priority = 0, createdAt = 0 \<rparr>]"
    "taskIdCounter (run cfg_wait three_queued) = 3"
    "defaultMode (config (run cfg_wait three_queued)) = CollectMode"
    by (simp_all add: three_queued_state queue_of_def lane_of_def)
  from enqueue_overflow [OF a, of 2 None None 0] enqueue_overflow [OF c, of 3 None None 0]
  show ?thesis
    using a b c by (simp add: d Let_def new_task_def steer_filter_def)
qed

lemma insertByPriority_split:
  "insertByPriority q t =
     takeWhile (\<lambda>x. \<not> priority x < priority t) q @ t # dropWhile (\<lambda>x. \<not> priority x < priority t) q"
  by (induction q) simp_all

subsection \<open>SteerMode mode\<close>

text \<open>
  Claim C5, as amended. For every steer-mode \<^verbatim>\<open>enqueue\<close> on lane \<open>k\<close> that the
  overflow check lets through: exactly the queued tasks of \<open>k\<close> whose mode is collect
  are rejected with the supersede error, in queue order, and nothing else is settled;
  the queue of \<open>k\<close> becomes the queued steer and followup tasks in their old order with
  the new task inserted by priority (if the lane is neither processing nor held back by
  the ceiling, the pump starts at once and the front of that queue becomes the current
  task); a lane that is processing keeps its current task; every other lane is
  unchanged.
\<close>

theorem steer_enqueue:
  assumes acc: "overflow_error (config s) k (lane_of s k) = None"
    and st: "mode (new_task k h mo po now s) = SteerMode"
  shows
    "(let t = new_task k h mo po now s;
          kept = filter (\<lambda>x. mode x \<noteq> CollectMode) (queue_of s k);
          q = takeWhile (\<lambda>x. \<not> priority x < priority t) kept @ t #
              dropWhile (\<lambda>x. \<not> priority x < priority t) kept;
          s' = snd (enqueue k h mo po now s)
      in fst (enqueue k h mo po now s) = Inr t \<and>
         settled s' = settled s @
           map (\<lambda>x. (x, Rejected Superseded)) (filter (\<lambda>x. mode x = CollectMode) (queue_of s k)) \<and>
         (if processing (lane_of s k) \<or> globalConcurrency s \<ge> int (maxConcurrency (config s))
          then queue_of s' k = q \<and> currentTask (lane_of s' k) = currentTask (lane_of s k)
          else queue_of s' k = tl q \<and> currentTask (lane_of s' k) = Some (hd q)) \<and>
         (\<forall>k'. k' \<noteq> k \<longrightarrow> map_of (lanes s') k' = map_of (lanes s) k'))"
proof -
  have en: "enqueue k h mo po now s =
      (Inr (new_task k h mo po now s), processLane k (admitted k h mo po now s))"
    using acc by (rule enqueue_accepted)
  have sf: "steer_filter SteerMode (queue_of s k) = filter (\<lambda>x. mode x \<noteq> CollectMode) (queue_of s k)"
    by (simp add: steer_filter_def)
  have sr: "steer_rejected SteerMode (queue_of s k) =
      map (\<lambda>x. (x, Rejected Superseded)) (filter (\<lambda>x. mode x = CollectMode) (queue_of s k))"
    by (simp add: steer_rejected_def)
  have lane: "map_of (lanes (admitted k h mo po now s)) k =
      Some ((lane_of s k)\<lparr> queue :=
        insertByPriority (filter (\<lambda>x. mode x \<noteq> CollectMode) (queue_of s k)) (new_task k h mo po now s) \<rparr>)"
    using admitted_lane [of k h mo po now s] by (simp add: st sf)
  have other: "\<forall>k'. k' \<noteq> k \<longrightarrow>
      map_of (lanes (processLane k (admitted k h mo po now s))) k' = map_of (lanes s) k'"
    by (simp add: processLane_other admitted_other)
  show ?thesis
    using other
    by (simp add: en Let_def queue_of_def processLane_lane [OF lane] st sr [unfolded queue_of_def]
          insertByPriority_split [symmetric] del: insertByPriority.simps)
qed

theorem steer_enqueue_witness:
  "overflow_error (config (run cfg_wait three_queued)) ''s1''
       (lane_of (run cfg_wait three_queued) ''s1'') = None \<and>
   mode (new_task ''s1'' 3 (Some SteerMode) None 0 (run cfg_wait three_queued)) = SteerMode \<and>
   map (\<lambda>(t, out). (task_id t, out))
     (settled (snd (enqueue ''s1'' 3 (Some SteerMode) None 0 (run cfg_wait three_queued))))
     = [(2, Rejected Superseded)] \<and>
   map task_id (queue_of (snd (enqueue ''s1'' 3 (Some SteerMode) None 0 (run cfg_wait three_queued))) ''s1'')
     = [3, 4] \<and>
   map_of (lanes (snd (enqueue ''s1'' 3 (Some SteerMode) None 0 (run cfg_wait three_queued)))) ''s2''
     = map_of (lanes (run cfg_wait three_queued)) ''s2''"
proof -
  have a: "overflow_error (config (run cfg_wait three_queued)) ''s1''
       (lane_of (run cfg_wait three_queued) ''s1'') = None"
    by (simp add: three_queued_state overflow_error_def)
  have b: "mode (new_task ''s1'' 3 (Some SteerMode) None 0 (run cfg_wait three_queued)) = SteerMode"
    by (simp add: new_task_def)
  have c: "queue_of (run cfg_wait three_queued) ''s1'' =
      [\<lparr> task_id = 2, sessionKey = ''s1'', handler = 1,
                    mode = CollectMode, priority = 0, createdAt = 0 \<rparr>,
                   \<lparr> task_id = 3, sessionKey = ''s1'', handler = 2,
                    mode = FollowupMode, priority = 0, createdAt = 0 \<rparr>]"
    "processing (lane_of (run cfg_wait three_queued) ''s1'')"
    "settled (run cfg_wait three_queued) = []"
    "taskIdCounter (run cfg_wait three_queued) = 3"
    by (simp_all add: three_queued_state queue_of_def lane_of_def)
  have d: "''s2'' \<noteq> ''s1''" by simp
  from steer_enqueue [OF a b] d show ?thesis
    by (simp add: a b c Let_def new_task_def)
qed

theorem steer_enqueue_refused_counterexample:
  "fst (enqueue ''s2'' 2 (Some SteerMode) None 0 (run cfg_one two_lanes)) = Inl (OverflowDropped ''s2'') \<and>
   map (\<lambda>t. (task_id t, mode t))
     (queue_of (snd (enqueue ''s2'' 2 (Some SteerMode) None 0 (run cfg_one two_lanes))) ''s2'')
     = [(2, CollectMode)] \<and>
   settled (snd (enqueue ''s2'' 2 (Some SteerMode) None 0 (run cfg_one two_lanes))) = []"
  by (simp add: two_lanes_state op_defs queue_of_def lane_of_def)

lemma count_update_present:
  "distinct (map fst al) \<Longrightarrow> map_of al k = Some l \<Longrightarrow>
   int (length (filter (\<lambda>(k, l). processing l) (AList.update k l' al))) =
     int (length (filter (\<lambda>(k, l). processing l) al))
       - (if processing l then 1 else 0) + (if processing l' then 1 else 0)"
proof (induction al)
  case Nil
  then show ?case by simp
next
  case (Cons p al)
  show ?case
  proof (cases "fst p = k")
    case True
    with Cons.prems have "snd p = l" by (cases p) simp
    with True show ?thesis by (cases p) simp
  next
    case False
    with Cons show ?thesis by (cases p) (auto split: if_splits)
  qed
qed

lemma count_update_absent:
  "map_of al k = None \<Longrightarrow>
   length (filter (\<lambda>(k, l). processing l) (AList.update k l' al)) =
     length (filter (\<lambda>(k, l). processing l) al) + (if processing l' then 1 else 0)"
  by (induction al) (auto split: if_splits)

lemma count_delete:
  "distinct (map fst al) \<Longrightarrow> map_of al k = Some l \<Longrightarrow>
   int (length (filter (\<lambda>(k, l). processing l) (AList.delete k al))) =
     int (length (filter (\<lambda>(k, l). processing l) al)) - (if processing l then 1 else 0)"
proof (induction al)
  case Nil
  then show ?case by simp
next
  case (Cons p al)
  show ?case
  proof (cases "fst p = k")
    case True
    with Cons.prems have l: "snd p = l" by (cases p) simp
    from True Cons.prems have "k \<notin> fst ` set al" by (cases p) auto
    then have "AList.delete k al = al"
      by (simp add: delete_id)
    with True l show ?thesis by (cases p) simp
  next
    case False
    with Cons show ?thesis by (cases p) (auto split: if_splits)
  qed
qed

lemma lanes_inv_set_lane:
  assumes inv: "lanes_inv s" and l: "map_of (lanes s) k = Some l"
    and p: "processing l' = processing l" and c: "processing l' = (currentTask l' \<noteq> None)"
  shows "lanes_inv (set_lane k l' s)"
proof -
  have "int (active_lanes (set_lane k l' s)) = int (active_lanes s)"
    using inv l p by (simp add: active_lanes_def set_lane_def lanes_inv_def count_update_present)
  moreover have "distinct (map fst (lanes (set_lane k l' s)))"
    using inv by (simp add: set_lane_def lanes_inv_def distinct_update)
  ultimately show ?thesis
    using inv c by (simp add: lanes_inv_def)
qed

lemma lanes_inv_new_lane:
  assumes inv: "lanes_inv s" and l: "map_of (lanes s) k = None"
  shows "lanes_inv (set_lane k empty_lane s)"
proof -
  have "active_lanes (set_lane k empty_lane s) = active_lanes s"
    using l by (simp add: active_lanes_def set_lane_def count_update_absent empty_lane_def)
  moreover have "distinct (map fst (lanes (set_lane k empty_lane s)))"
    using inv by (simp add: set_lane_def lanes_inv_def distinct_update)
  ultimately show ?thesis
    using inv by (simp add: lanes_inv_def empty_lane_def)
qed

lemma lanes_inv_getOrCreateLane: "lanes_inv s \<Longrightarrow> lanes_inv (snd (getOrCreateLane k s))"
  by (simp add: getOrCreateLane_def lanes_inv_new_lane split: option.splits)

lemma lanes_inv_fields:
  "lanes_inv s \<Longrightarrow> lanes_inv (s\<lparr> settled := x \<rparr>)"
  "lanes_inv s \<Longrightarrow> lanes_inv (s\<lparr> taskIdCounter := n \<rparr>)"
  "lanes_inv s \<Longrightarrow> lanes_inv (s\<lparr> taskIdCounter := n, settled := x \<rparr>)"
  by (simp_all add: lanes_inv_def active_lanes_def)

lemma lanes_inv_processLane:
  assumes inv: "lanes_inv s"
  shows "lanes_inv (processLane k s)"
proof (cases "map_of (lanes s) k")
  case None
  then show ?thesis using inv by (simp add: processLane_def)
next
  case (Some l)
  show ?thesis
  proof (cases "\<not> processing l \<and> queue l \<noteq> [] \<and> globalConcurrency s < int (maxConcurrency (config s))")
    case False
    then show ?thesis using inv Some by (auto simp: processLane_def)
  next
    case True
    let ?l' = "l\<lparr> processing := True, queue := tl (queue l), currentTask := Some (hd (queue l)) \<rparr>"
    let ?s1 = "s\<lparr> globalConcurrency := globalConcurrency s + 1 \<rparr>"
    have eq: "processLane k s = set_lane k ?l' ?s1"
      using True Some by (simp add: processLane_def)
    have "int (active_lanes (set_lane k ?l' ?s1)) = int (active_lanes s) + 1"
      using inv Some True
      by (simp add: active_lanes_def set_lane_def lanes_inv_def count_update_present)
    moreover have "distinct (map fst (lanes (set_lane k ?l' ?s1)))"
      using inv by (simp add: set_lane_def lanes_inv_def distinct_update)
    ultimately show ?thesis
      using inv True unfolding eq by (simp add: lanes_inv_def)
  qed
qed

lemma lanes_inv_sweep: "lanes_inv s \<Longrightarrow> lanes_inv (sweep ks s)"
proof (induction ks arbitrary: s)
  case Nil
  then show ?case by simp
next
  case (Cons k ks)
  then show ?case
    by (simp add: Let_def lanes_inv_processLane split: option.splits)
qed

lemma lanes_inv_tryProcessPendingLanes: "lanes_inv s \<Longrightarrow> lanes_inv (tryProcessPendingLanes s)"
  by (simp add: tryProcessPendingLanes_def lanes_inv_sweep)

lemma pump_finally_exit:
  assumes q: "queue l' = []"
  shows "pump_finally k (set_lane k l' s) =
     s\<lparr> lanes := AList.delete k (lanes s), globalConcurrency := globalConcurrency s - 1 \<rparr>"
  using q
  by (simp add: pump_finally_def cleanupEmptyLane_def set_lane_def update_conv'
        delete_update_same)

lemma lanes_inv_exit:
  assumes inv: "lanes_inv s" and l: "map_of (lanes s) k = Some l" and p: "processing l"
  shows "lanes_inv (s\<lparr> lanes := AList.delete k (lanes s),
                       globalConcurrency := globalConcurrency s - 1 \<rparr>)"
proof -
  have d: "distinct (map fst (lanes s))" using inv by (simp add: lanes_inv_def)
  have "int (length (filter (\<lambda>(k, l). processing l) (AList.delete k (lanes s)))) =
      int (active_lanes s) - 1"
    using count_delete [OF d l] p by (simp add: active_lanes_def)
  then show ?thesis
    using inv d by (simp add: lanes_inv_def active_lanes_def distinct_delete delete_conv')
qed

lemma lanes_inv_task_settled:
  assumes inv: "lanes_inv s"
  shows "lanes_inv (task_settled k r s)"
proof (cases "map_of (lanes s) k")
  case None
  then show ?thesis using inv by (simp add: task_settled_def)
next
  case (Some l)
  show ?thesis
  proof (cases "currentTask l")
    case None
    then show ?thesis using inv Some by (simp add: task_settled_def)
  next
    case (Some t)
    note cur = this
    let ?s1 = "s\<lparr> settled := settled s @ [(t, race_outcome r)] \<rparr>"
    have inv1: "lanes_inv ?s1" using inv by (rule lanes_inv_fields)
    have l1: "map_of (lanes ?s1) k = Some l" using \<open>map_of (lanes s) k = Some l\<close> by simp
    have pl: "processing l"
      using inv \<open>map_of (lanes s) k = Some l\<close> cur by (simp add: lanes_inv_def)
    show ?thesis
    proof (cases "queue l = []")
      case False
      have "lanes_inv (set_lane k (l\<lparr> queue := tl (queue l), currentTask := Some (hd (queue l)) \<rparr>) ?s1)"
        using inv1 l1 by (rule lanes_inv_set_lane) (simp_all add: pl)
      then show ?thesis
        using False cur \<open>map_of (lanes s) k = Some l\<close> by (simp add: task_settled_def Let_def)
    next
      case True
      have eq: "pump_finally k (set_lane k (l\<lparr> currentTask := None \<rparr>) ?s1) =
          ?s1\<lparr> lanes := AList.delete k (lanes ?s1),
               globalConcurrency := globalConcurrency ?s1 - 1 \<rparr>"
        by (rule pump_finally_exit) (simp add: True)
      have "lanes_inv (?s1\<lparr> lanes := AList.delete k (lanes ?s1),
               globalConcurrency := globalConcurrency ?s1 - 1 \<rparr>)"
        using inv1 l1 pl by (rule lanes_inv_exit)
      then have "lanes_inv (tryProcessPendingLanes
          (pump_finally k (set_lane k (l\<lparr> currentTask := None \<rparr>) ?s1)))"
        unfolding eq by (rule lanes_inv_tryProcessPendingLanes)
      then show ?thesis
        using True cur \<open>map_of (lanes s) k = Some l\<close> by (simp add: task_settled_def Let_def)
    qed
  qed
qed

lemma lane_of_Some: "map_of (lanes s) k = Some l \<Longrightarrow> lane_of s k = l"
  by (simp add: lane_of_def)

lemma lanes_inv_enqueue:
  assumes inv: "lanes_inv s"
  shows "lanes_inv (snd (enqueue k h mo po now s))"
proof (cases "overflow_error (config s) k (lane_of s k)")
  case (Some e)
  then show ?thesis using inv by (simp add: enqueue_refused lanes_inv_getOrCreateLane)
next
  case None
  let ?s1 = "snd (getOrCreateLane k s)"
  have inv1: "lanes_inv ?s1" using inv by (rule lanes_inv_getOrCreateLane)
  have l1: "map_of (lanes ?s1) k = Some (lane_of s k)"
    by (simp add: getOrCreateLane_def lane_of_def split: option.splits)
  have pc: "processing (lane_of s k) = (currentTask (lane_of s k) \<noteq> None)"
    using inv1 l1 by (simp add: lanes_inv_def)
  have "lanes_inv (admitted k h mo po now s)"
    unfolding admitted_def Let_def
    by (rule lanes_inv_set_lane [where l = "lane_of s k"])
       (simp_all add: lanes_inv_fields inv1 l1 pc)
  then show ?thesis
    using None by (simp add: enqueue_accepted lanes_inv_processLane)
qed

lemma lanes_inv_abort: "lanes_inv s \<Longrightarrow> lanes_inv (snd (abort k s))"
proof (cases "map_of (lanes s) k")
  case None
  assume "lanes_inv s"
  with None show ?thesis by (simp add: abort_def)
next
  case (Some l)
  assume inv: "lanes_inv s"
  have "lanes_inv (set_lane k (l\<lparr> queue := [] \<rparr>)
      (s\<lparr> settled := settled s @ map (\<lambda>t. (t, Rejected Aborted)) (queue l) \<rparr>))"
    by (rule lanes_inv_set_lane [where l = l])
       (use inv Some in \<open>simp_all add: lanes_inv_fields, simp add: lanes_inv_def\<close>)
  with Some show ?thesis by (simp add: abort_def)
qed

lemma lanes_inv_clear_lane: "lanes_inv s \<Longrightarrow> lanes_inv (clear_lane k s)"
proof (cases "map_of (lanes s) k")
  case None
  assume "lanes_inv s"
  with None show ?thesis by (simp add: clear_lane_def)
next
  case (Some l)
  assume inv: "lanes_inv s"
  have "lanes_inv (set_lane k (l\<lparr> queue := [] \<rparr>)
      (s\<lparr> settled := settled s @ map (\<lambda>t. (t, Rejected Cleared)) (queue l) \<rparr>))"
    by (rule lanes_inv_set_lane [where l = l])
       (use inv Some in \<open>simp_all add: lanes_inv_fields, simp add: lanes_inv_def\<close>)
  with Some show ?thesis by (simp add: clear_lane_def)
qed

lemma lanes_inv_clear_all:
  "lanes_inv s \<Longrightarrow> lanes_inv (foldl (\<lambda>s k. clear_lane k s) s ks)"
  by (induction ks arbitrary: s) (simp_all add: lanes_inv_clear_lane)

lemma lanes_inv_clear: "lanes_inv s \<Longrightarrow> lanes_inv (clear ko s)"
  by (simp add: clear_def lanes_inv_clear_lane lanes_inv_clear_all split: option.splits)

lemma lanes_inv_step: "lanes_inv s \<Longrightarrow> lanes_inv (step s e)"
  by (cases e)
     (simp_all add: lanes_inv_enqueue lanes_inv_abort lanes_inv_clear lanes_inv_task_settled)

lemma lanes_inv_foldl: "lanes_inv s \<Longrightarrow> lanes_inv (foldl step s evs)"
  by (induction evs arbitrary: s) (simp_all add: lanes_inv_step)

lemma lanes_inv_new: "lanes_inv (new_LaneQueue c)"
  by (simp add: lanes_inv_def new_LaneQueue_def active_lanes_def)

lemma lanes_inv_run: "lanes_inv (run c evs)"
  unfolding run_def by (rule lanes_inv_foldl) (rule lanes_inv_new)

lemma sweep_config [simp]: "config (sweep ks s) = config s"
  by (induction ks arbitrary: s) (simp_all add: Let_def split: option.splits)

lemma step_config [simp]: "config (step s e) = config s"
proof (cases e)
  case (Enqueue k h mo po now)
  show ?thesis
  proof (cases "overflow_error (config s) k (lane_of s k)")
    case None
    then show ?thesis using Enqueue by (simp add: enqueue_accepted)
  next
    case (Some e)
    then show ?thesis using Enqueue by (simp add: enqueue_refused)
  qed
next
  case (Abort k)
  then show ?thesis by (simp add: abort_def split: option.splits)
next
  case (Clear ko)
  have c1: "\<And>k s. config (clear_lane k s) = config s"
    by (simp add: clear_lane_def split: option.splits)
  have "\<And>ks s. config (foldl (\<lambda>s k. clear_lane k s) s ks) = config s"
    subgoal for ks s by (induction ks arbitrary: s) (simp_all add: c1)
    done
  with c1 Clear show ?thesis by (simp add: clear_def split: option.splits)
next
  case (Settled k r)
  then show ?thesis
    by (simp add: task_settled_def Let_def tryProcessPendingLanes_def pump_finally_def
          cleanupEmptyLane_def split: option.splits)
qed

lemma run_config: "config (run c evs) = required c"
proof -
  have "config (foldl step s evs) = config s" for s
    by (induction evs arbitrary: s) simp_all
  then show ?thesis by (simp add: run_def new_LaneQueue_def)
qed

subsection \<open>The concurrency counter\<close>

text \<open>
  Claim C7. After every sequence of events (calls of \<^verbatim>\<open>enqueue\<close>, \<^verbatim>\<open>abort\<close> and
  \<^verbatim>\<open>clear\<close>, and settlements of running tasks with a value, an error or a timeout)
  on a fresh scheduler, the global counter is at least 0, at most \<^verbatim>\<open>maxConcurrency\<close>,
  and equal to the number of lanes of the table whose \<^verbatim>\<open>processing\<close> flag is true.
  Whenever the pump of a processing lane leaves its loop (its running task settles
  and the queue is empty), whatever the outcome \<open>r\<close> of the task, the \<^verbatim>\<open>finally\<close>
  block runs: the counter is decremented by one and the lane is deleted, before the
  sweep over the waiting lanes. The states between two events are the states in which
  control is outside the scheduler; within one event the code runs without suspension.
\<close>

theorem concurrency_counter:
  "0 \<le> globalConcurrency (run c evs) \<and>
   globalConcurrency (run c evs) \<le> int (maxConcurrency (required c)) \<and>
   globalConcurrency (run c evs) = int (active_lanes (run c evs)) \<and>
   (\<forall>k r. isProcessing (run c evs) k \<and> queue_of (run c evs) k = [] \<longrightarrow>
      (\<exists>t. currentTask (lane_of (run c evs) k) = Some t \<and>
           task_settled k r (run c evs) =
             tryProcessPendingLanes
               ((run c evs)\<lparr> settled := settled (run c evs) @ [(t, race_outcome r)],
                    lanes := AList.delete k (lanes (run c evs)),
                    globalConcurrency := globalConcurrency (run c evs) - 1 \<rparr>)))"
proof -
  let ?s = "run c evs"
  have inv: "lanes_inv ?s" by (rule lanes_inv_run)
  have exit: "\<exists>t. currentTask (lane_of ?s k) = Some t \<and>
           task_settled k r ?s =
             tryProcessPendingLanes
               (?s\<lparr> settled := settled ?s @ [(t, race_outcome r)],
                    lanes := AList.delete k (lanes ?s),
                    globalConcurrency := globalConcurrency ?s - 1 \<rparr>)"
    if p: "isProcessing ?s k" and q: "queue_of ?s k = []" for k r
  proof -
    from p obtain l where l: "map_of (lanes ?s) k = Some l" and pl: "processing l"
      by (auto simp: isProcessing_def split: option.splits)
    from inv l pl obtain t where t: "currentTask l = Some t"
      by (auto simp: lanes_inv_def)
    have ql: "queue l = []" using q l by (simp add: queue_of_def lane_of_def)
    have "task_settled k r ?s =
        tryProcessPendingLanes (pump_finally k (set_lane k (l\<lparr> currentTask := None \<rparr>)
          (?s\<lparr> settled := settled ?s @ [(t, race_outcome r)] \<rparr>)))"
      using l t ql by (simp add: task_settled_def Let_def)
    also have "pump_finally k (set_lane k (l\<lparr> currentTask := None \<rparr>)
          (?s\<lparr> settled := settled ?s @ [(t, race_outcome r)] \<rparr>)) =
        ?s\<lparr> settled := settled ?s @ [(t, race_outcome r)],
            lanes := AList.delete k (lanes ?s),
            globalConcurrency := globalConcurrency ?s - 1 \<rparr>"
      by (subst pump_finally_exit) (simp_all add: ql)
    finally show ?thesis using l t by (simp add: lane_of_def)
  qed
  from inv have "0 \<le> globalConcurrency ?s" "globalConcurrency ?s = int (active_lanes ?s)"
    "globalConcurrency ?s \<le> int (maxConcurrency (required c))"
    by (simp_all add: lanes_inv_def run_config)
  with exit show ?thesis by blast
qed

theorem concurrency_counter_witness:
  "isProcessing (run cfg_one two_lanes) ''s1'' \<and> queue_of (run cfg_one two_lanes) ''s1'' = [] \<and>
   globalConcurrency (run cfg_one two_lanes) = 1 \<and>
   int (active_lanes (run cfg_one two_lanes)) = 1 \<and>
   int (maxConcurrency (required cfg_one)) = 1 \<and>
   globalConcurrency (task_settled ''s1'' TimerFired (run cfg_one two_lanes)) = 1"
proof -
  have p: "isProcessing (run cfg_one two_lanes) ''s1''"
    by (simp add: two_lanes_state isProcessing_def)
  have q: "queue_of (run cfg_one two_lanes) ''s1'' = []"
    by (simp add: two_lanes_state queue_of_def lane_of_def)
  have g: "globalConcurrency (run cfg_one two_lanes) = 1"
    by (simp add: two_lanes_state)
  have m: "int (maxConcurrency (required cfg_one)) = 1"
    by (simp add: required_def cfg_one_def)
  have ts: "globalConcurrency (task_settled ''s1'' TimerFired (run cfg_one two_lanes)) = 1"
    by (simp add: two_lanes_state op_defs)
  from concurrency_counter [of cfg_one two_lanes] p q g m ts show ?thesis
    by simp
qed

subsection \<open>Lanes that are empty and idle\<close>

text \<open>
  Claim C3 fails on the code. With \<^verbatim>\<open>maxConcurrency = 1\<close>, a task enqueued on
  \<^verbatim>\<open>s2\<close> while \<^verbatim>\<open>s1\<close> is running waits in its lane, which is not processing.
  \<^verbatim>\<open>abort("s2")\<close> or \<^verbatim>\<open>clear("s2")\<close> empties that queue and returns without calling
  \<^verbatim>\<open>cleanupEmptyLane\<close>: the lane stays in the table, empty and idle, and is still
  there after the pump of \<^verbatim>\<open>s1\<close> has finished.
\<close>

theorem abort_keeps_idle_empty_lane:
  "map_of (lanes (run cfg_one (two_lanes @ [Abort ''s2'']))) ''s2'' =
     Some \<lparr> queue = [], processing = False, currentTask = None \<rparr> \<and>
   map_of (lanes (run cfg_one (two_lanes @ [Clear (Some ''s2'')]))) ''s2'' =
     Some \<lparr> queue = [], processing = False, currentTask = None \<rparr> \<and>
   map_of (lanes (run cfg_one (two_lanes @ [Abort ''s2'', Settled ''s1'' (Fulfilled 0)]))) ''s2'' =
     Some \<lparr> queue = [], processing = False, currentTask = None \<rparr>"
  by (simp add: sched_defs cfg_one_def two_lanes_def)

lemma results_append [simp]: "results k p (xs @ ys) = results k p xs @ results k p ys"
  by (simp add: results_def)

lemma results_no_result:
  "\<forall>(t, out) \<in> set xs. \<not> is_result out \<Longrightarrow> results k p xs = []"
  by (auto simp: results_def filter_empty_conv)

lemma results_single:
  "results k p [(t, out)] =
     (if is_result out \<and> sessionKey t = k \<and> priority t = p then [task_id t] else [])"
  by (simp add: results_def)

lemma is_result_race [simp]: "is_result (race_outcome r)"
  by (cases r) (simp_all add: is_result_def race_outcome_def)

lemma not_result_cancel [simp]:
  "\<not> is_result (Rejected Superseded)" "\<not> is_result (Rejected Aborted)"
  "\<not> is_result (Rejected Cleared)"
  by (simp_all add: is_result_def)

lemma lane_ok_mono:
  "lane_ok n log k l \<Longrightarrow> n \<le> n' \<Longrightarrow> lane_ok n' log k l"
  by (fastforce simp: lane_ok_def)

lemma lane_ok_log:
  "lane_ok n log k l \<Longrightarrow> \<forall>(t, out) \<in> set xs. \<not> is_result out \<Longrightarrow> lane_ok n (log @ xs) k l"
  by (simp add: lane_ok_def results_no_result)

lemma lane_ok_sub:
  assumes ok: "lane_ok n log k l"
    and sub: "set (pending l') \<subseteq> set (pending l)"
    and so: "sorted_wrt older (pending l')"
    and sq: "sorted_wrt (\<lambda>a b. priority b \<le> priority a) (queue l')"
  shows "lane_ok n log k l'"
  using ok sub so sq unfolding lane_ok_def by blast

lemma lane_ok_empty: "lane_ok n log k empty_lane"
  by (simp add: lane_ok_def empty_lane_def pending_def)

lemma sorted_wrt_tl: "sorted_wrt P xs \<Longrightarrow> sorted_wrt P (tl xs)"
  by (cases xs) simp_all

lemma insertByPriority_set [simp]: "set (insertByPriority q t) = insert t (set q)"
  by (induction q) auto

lemma insertByPriority_sorted:
  "sorted_wrt (\<lambda>a b. priority b \<le> priority a) q \<Longrightarrow>
   sorted_wrt (\<lambda>a b. priority b \<le> priority a) (insertByPriority q t)"
  by (induction q) auto

lemma insertByPriority_older:
  assumes "sorted_wrt (\<lambda>a b. priority b \<le> priority a) q"
    and "sorted_wrt older q" and "\<forall>x \<in> set q. task_id x < task_id t"
  shows "sorted_wrt older (insertByPriority q t)"
  using assms
proof (induction q)
  case Nil
  then show ?case by simp
next
  case (Cons x q)
  show ?case
  proof (cases "priority t > priority x")
    case True
    have "\<forall>y \<in> set (x # q). priority y < priority t"
      using True Cons.prems(1) by auto
    then have "\<forall>y \<in> set (x # q). older t y"
      by (auto simp: older_def)
    with True Cons.prems(2) show ?thesis by simp
  next
    case False
    have "older x t" using Cons.prems(3) by (simp add: older_def)
    with False Cons show ?thesis by auto
  qed
qed

lemma order_inv_set_lane:
  "order_inv s \<Longrightarrow> lane_ok (taskIdCounter s) (settled s) k l' \<Longrightarrow> order_inv (set_lane k l' s)"
  by (simp add: order_inv_def)

lemma order_inv_globalConcurrency [simp]:
  "order_inv (s\<lparr> globalConcurrency := g \<rparr>) = order_inv s"
  by (simp add: order_inv_def)

lemma order_inv_delete:
  "order_inv s \<Longrightarrow> order_inv (s\<lparr> lanes := AList.delete k (lanes s) \<rparr>)"
  by (simp add: order_inv_def delete_conv')

lemma order_inv_log:
  assumes inv: "order_inv s"
    and xs: "\<forall>(t, out) \<in> set xs. \<not> is_result out \<and> task_id t \<le> taskIdCounter s"
  shows "order_inv (s\<lparr> settled := settled s @ xs \<rparr>)"
proof -
  have nr: "\<forall>(t, out) \<in> set xs. \<not> is_result out" using xs by auto
  have "\<forall>(t, out) \<in> set (settled s @ xs). task_id t \<le> taskIdCounter s"
    using inv xs by (auto simp: order_inv_def)
  moreover have "lane_ok (taskIdCounter s) (settled s @ xs) k l"
    if "map_of (lanes s) k = Some l" for k l
    using inv that nr by (simp add: order_inv_def lane_ok_log)
  moreover have "sorted_wrt (<) (results k p (settled s @ xs))" for k p
    using inv nr by (simp add: order_inv_def results_no_result)
  ultimately show ?thesis by (simp add: order_inv_def)
qed

lemma order_inv_lane:
  "order_inv s \<Longrightarrow> map_of (lanes s) k = Some l \<Longrightarrow> lane_ok (taskIdCounter s) (settled s) k l"
  by (simp add: order_inv_def)

lemma order_inv_processLane:
  assumes li: "lanes_inv s" and inv: "order_inv s"
  shows "order_inv (processLane k s)"
proof (cases "map_of (lanes s) k")
  case None
  then show ?thesis using inv by (simp add: processLane_def)
next
  case (Some l)
  show ?thesis
  proof (cases "\<not> processing l \<and> queue l \<noteq> [] \<and> globalConcurrency s < int (maxConcurrency (config s))")
    case False
    then show ?thesis using inv Some by (auto simp: processLane_def)
  next
    case True
    let ?l' = "l\<lparr> processing := True, queue := tl (queue l), currentTask := Some (hd (queue l)) \<rparr>"
    have eq: "processLane k s = set_lane k ?l' (s\<lparr> globalConcurrency := globalConcurrency s + 1 \<rparr>)"
      using True Some by (simp add: processLane_def)
    have cur: "currentTask l = None"
      using li Some True by (simp add: lanes_inv_def)
    have ok: "lane_ok (taskIdCounter s) (settled s) k l"
      using inv Some by (rule order_inv_lane)
    have pe: "pending ?l' = pending l"
      using True cur by (simp add: pending_def)
    have "lane_ok (taskIdCounter s) (settled s) k ?l'"
      using ok
    proof (rule lane_ok_sub)
      show "set (pending ?l') \<subseteq> set (pending l)" by (simp add: pe)
      show "sorted_wrt older (pending ?l')" using ok by (simp add: pe lane_ok_def)
      show "sorted_wrt (\<lambda>a b. priority b \<le> priority a) (queue ?l')"
        using ok by (simp add: lane_ok_def sorted_wrt_tl)
    qed
    then show ?thesis
      unfolding eq using inv by (intro order_inv_set_lane) simp_all
  qed
qed

lemma both_inv_sweep:
  "lanes_inv s \<Longrightarrow> order_inv s \<Longrightarrow> order_inv (sweep ks s)"
proof (induction ks arbitrary: s)
  case Nil
  then show ?case by simp
next
  case (Cons k ks)
  then show ?case
    by (simp add: Let_def lanes_inv_processLane order_inv_processLane split: option.splits)
qed

lemma order_inv_tryProcessPendingLanes:
  "lanes_inv s \<Longrightarrow> order_inv s \<Longrightarrow> order_inv (tryProcessPendingLanes s)"
  by (simp add: tryProcessPendingLanes_def both_inv_sweep)

lemma order_inv_abort:
  assumes inv: "order_inv s"
  shows "order_inv (snd (abort k s))"
proof (cases "map_of (lanes s) k")
  case None
  then show ?thesis using inv by (simp add: abort_def)
next
  case (Some l)
  let ?xs = "map (\<lambda>t. (t, Rejected Aborted)) (queue l)"
  let ?s1 = "s\<lparr> settled := settled s @ ?xs \<rparr>"
  have ok: "lane_ok (taskIdCounter s) (settled s) k l"
    using inv Some by (rule order_inv_lane)
  have xs: "\<forall>(t, out) \<in> set ?xs. \<not> is_result out \<and> task_id t \<le> taskIdCounter s"
    using ok by (auto simp: lane_ok_def pending_def)
  have inv1: "order_inv ?s1" using inv xs by (rule order_inv_log)
  have ok1: "lane_ok (taskIdCounter ?s1) (settled ?s1) k l"
    using inv1 by (rule order_inv_lane) (simp add: Some)
  have "lane_ok (taskIdCounter ?s1) (settled ?s1) k (l\<lparr> queue := [] \<rparr>)"
    using ok1
  proof (rule lane_ok_sub)
    show "set (pending (l\<lparr> queue := [] \<rparr>)) \<subseteq> set (pending l)"
      by (auto simp: pending_def split: option.splits)
    show "sorted_wrt older (pending (l\<lparr> queue := [] \<rparr>))"
      by (simp add: pending_def split: option.splits)
    show "sorted_wrt (\<lambda>a b. priority b \<le> priority a) (queue (l\<lparr> queue := [] \<rparr>))" by simp
  qed
  with inv1 have "order_inv (set_lane k (l\<lparr> queue := [] \<rparr>) ?s1)"
    by (rule order_inv_set_lane)
  then show ?thesis using Some by (simp add: abort_def)
qed

lemma order_inv_clear_lane:
  assumes inv: "order_inv s"
  shows "order_inv (clear_lane k s)"
proof (cases "map_of (lanes s) k")
  case None
  then show ?thesis using inv by (simp add: clear_lane_def)
next
  case (Some l)
  let ?xs = "map (\<lambda>t. (t, Rejected Cleared)) (queue l)"
  let ?s1 = "s\<lparr> settled := settled s @ ?xs \<rparr>"
  have ok: "lane_ok (taskIdCounter s) (settled s) k l"
    using inv Some by (rule order_inv_lane)
  have xs: "\<forall>(t, out) \<in> set ?xs. \<not> is_result out \<and> task_id t \<le> taskIdCounter s"
    using ok by (auto simp: lane_ok_def pending_def)
  have inv1: "order_inv ?s1" using inv xs by (rule order_inv_log)
  have ok1: "lane_ok (taskIdCounter ?s1) (settled ?s1) k l"
    using inv1 by (rule order_inv_lane) (simp add: Some)
  have "lane_ok (taskIdCounter ?s1) (settled ?s1) k (l\<lparr> queue := [] \<rparr>)"
    using ok1
  proof (rule lane_ok_sub)
    show "set (pending (l\<lparr> queue := [] \<rparr>)) \<subseteq> set (pending l)"
      by (auto simp: pending_def split: option.splits)
    show "sorted_wrt older (pending (l\<lparr> queue := [] \<rparr>))"
      by (simp add: pending_def split: option.splits)
    show "sorted_wrt (\<lambda>a b. priority b \<le> priority a) (queue (l\<lparr> queue := [] \<rparr>))" by simp
  qed
  with inv1 have "order_inv (set_lane k (l\<lparr> queue := [] \<rparr>) ?s1)"
    by (rule order_inv_set_lane)
  then show ?thesis using Some by (simp add: clear_lane_def)
qed

lemma order_inv_clear_all:
  "order_inv s \<Longrightarrow> order_inv (foldl (\<lambda>s k. clear_lane k s) s ks)"
  by (induction ks arbitrary: s) (simp_all add: order_inv_clear_lane)

lemma order_inv_clear: "order_inv s \<Longrightarrow> order_inv (clear ko s)"
  by (simp add: clear_def order_inv_clear_lane order_inv_clear_all split: option.splits)

lemma results_bound:
  "\<forall>(t, out) \<in> set log. task_id t \<le> n \<Longrightarrow> \<forall>i \<in> set (results k p log). i \<le> n"
  by (auto simp: results_def)

lemma order_inv_log_bound:
  "order_inv s \<Longrightarrow> \<forall>(t, out) \<in> set (settled s). task_id t \<le> taskIdCounter s"
  by (simp add: order_inv_def)

lemma order_inv_sorted: "order_inv s \<Longrightarrow> sorted_wrt (<) (results k p (settled s))"
  by (simp add: order_inv_def)

lemma order_invI:
  assumes "\<forall>(t, out) \<in> set (settled s). task_id t \<le> taskIdCounter s"
    and "\<And>k l. map_of (lanes s) k = Some l \<Longrightarrow> lane_ok (taskIdCounter s) (settled s) k l"
    and "\<And>k p. sorted_wrt (<) (results k p (settled s))"
  shows "order_inv s"
  unfolding order_inv_def using assms by blast

lemma settle_common:
  assumes inv: "order_inv s" and l: "map_of (lanes s) k = Some l"
    and cur: "currentTask l = Some t" and res: "is_result out"
  shows "\<forall>(t', o') \<in> set (settled s @ [(t, out)]). task_id t' \<le> taskIdCounter s"
    and "sorted_wrt (<) (results k' p (settled s @ [(t, out)]))"
    and "k' \<noteq> k \<Longrightarrow> lane_ok (taskIdCounter s) (settled s) k' l2 \<Longrightarrow>
           lane_ok (taskIdCounter s) (settled s @ [(t, out)]) k' l2"
    and "set (pending l') \<subseteq> set (queue l) \<Longrightarrow> sorted_wrt older (pending l') \<Longrightarrow>
         sorted_wrt (\<lambda>a b. priority b \<le> priority a) (queue l') \<Longrightarrow>
           lane_ok (taskIdCounter s) (settled s @ [(t, out)]) k l'"
proof -
  have ok: "lane_ok (taskIdCounter s) (settled s) k l"
    using inv l by (rule order_inv_lane)
  have tp: "t \<in> set (pending l)" using cur by (simp add: pending_def)
  have key: "sessionKey t = k" and idt: "task_id t \<le> taskIdCounter s"
    using ok tp unfolding lane_ok_def by blast+
  have before: "\<forall>i \<in> set (results k (priority t) (settled s)). i < task_id t"
    using ok tp unfolding lane_ok_def by blast
  show "\<forall>(t', o') \<in> set (settled s @ [(t, out)]). task_id t' \<le> taskIdCounter s"
    using order_inv_log_bound [OF inv] idt by simp
  show "sorted_wrt (<) (results k' p (settled s @ [(t, out)]))"
  proof (cases "sessionKey t = k' \<and> priority t = p")
    case True
    then show ?thesis
      using order_inv_sorted [OF inv, of k' p] before key res
      by (simp add: results_single sorted_wrt_append)
  next
    case False
    then show ?thesis
      using order_inv_sorted [OF inv, of k' p] by (auto simp: results_single)
  qed
  show "lane_ok (taskIdCounter s) (settled s @ [(t, out)]) k' l2"
    if "k' \<noteq> k" "lane_ok (taskIdCounter s) (settled s) k' l2"
  proof -
    have "results k' p [(t, out)] = []" for p
      using that(1) key by (simp add: results_single)
    then show ?thesis using that(2) by (simp add: lane_ok_def)
  qed
  show "lane_ok (taskIdCounter s) (settled s @ [(t, out)]) k l'"
    if sub: "set (pending l') \<subseteq> set (queue l)" and so: "sorted_wrt older (pending l')"
      and sq: "sorted_wrt (\<lambda>a b. priority b \<le> priority a) (queue l')"
  proof -
    have pl: "pending l = t # queue l" using cur by (simp add: pending_def)
    have sub': "set (pending l') \<subseteq> set (pending l)" using sub pl by auto
    have ok': "lane_ok (taskIdCounter s) (settled s) k l'"
      using ok sub' so sq by (rule lane_ok_sub)
    have "sorted_wrt older (t # queue l)" using ok pl by (simp add: lane_ok_def)
    then have "\<forall>u \<in> set (queue l). older t u" by simp
    then have after: "\<forall>u \<in> set (pending l'). priority u = priority t \<longrightarrow> task_id t < task_id u"
      using sub by (auto simp: older_def)
    have r: "\<forall>u \<in> set (pending l'). \<forall>i \<in> set (results k (priority u) (settled s @ [(t, out)])).
        i < task_id u"
    proof (intro ballI)
      fix u i
      assume u: "u \<in> set (pending l')"
        and i: "i \<in> set (results k (priority u) (settled s @ [(t, out)]))"
      from i have "i \<in> set (results k (priority u) (settled s)) \<or>
          (i = task_id t \<and> priority t = priority u)"
        by (auto simp: results_single split: if_splits)
      then show "i < task_id u"
      proof
        assume "i \<in> set (results k (priority u) (settled s))"
        with ok' u show ?thesis unfolding lane_ok_def by blast
      next
        assume "i = task_id t \<and> priority t = priority u"
        with after u show ?thesis by auto
      qed
    qed
    from ok' have a: "\<forall>t \<in> set (pending l'). sessionKey t = k \<and> task_id t \<le> taskIdCounter s"
      unfolding lane_ok_def by blast
    show ?thesis
      unfolding lane_ok_def using a sq so r by blast
  qed
qed

lemma order_inv_settle_next:
  assumes inv: "order_inv s" and l: "map_of (lanes s) k = Some l"
    and cur: "currentTask l = Some t" and res: "is_result out" and q: "queue l \<noteq> []"
  shows "order_inv (set_lane k (l\<lparr> queue := tl (queue l), currentTask := Some (hd (queue l)) \<rparr>)
           (s\<lparr> settled := settled s @ [(t, out)] \<rparr>))"
proof -
  let ?l' = "l\<lparr> queue := tl (queue l), currentTask := Some (hd (queue l)) \<rparr>"
  let ?s' = "set_lane k ?l' (s\<lparr> settled := settled s @ [(t, out)] \<rparr>)"
  have ok: "lane_ok (taskIdCounter s) (settled s) k l"
    using inv l by (rule order_inv_lane)
  have pe: "pending ?l' = queue l" using q by (simp add: pending_def)
  have pl: "pending l = t # queue l" using cur by (simp add: pending_def)
  have okk: "lane_ok (taskIdCounter s) (settled s @ [(t, out)]) k ?l'"
  proof (rule settle_common(4) [OF inv l cur res])
    show "set (pending ?l') \<subseteq> set (queue l)" by (simp add: pe)
    show "sorted_wrt older (pending ?l')" using ok by (simp add: pe lane_ok_def pl)
    show "sorted_wrt (\<lambda>a b. priority b \<le> priority a) (queue ?l')"
      using ok by (simp add: lane_ok_def sorted_wrt_tl)
  qed
  show ?thesis
  proof (rule order_invI)
    show "\<forall>(t, out) \<in> set (settled ?s'). task_id t \<le> taskIdCounter ?s'"
      using settle_common(1) [OF inv l cur res] by simp
    show "sorted_wrt (<) (results k' p (settled ?s'))" for k' p
      using settle_common(2) [OF inv l cur res, of k' p] by simp
    show "lane_ok (taskIdCounter ?s') (settled ?s') k' l2"
      if m: "map_of (lanes ?s') k' = Some l2" for k' l2
    proof (cases "k' = k")
      case True
      with m have "l2 = ?l'" by simp
      with okk True show ?thesis by simp
    next
      case False
      with m have "map_of (lanes s) k' = Some l2" by simp
      then have "lane_ok (taskIdCounter s) (settled s) k' l2"
        using inv by (intro order_inv_lane)
      with settle_common(3) [OF inv l cur res False] show ?thesis by simp
    qed
  qed
qed

lemma order_inv_settle_exit:
  assumes inv: "order_inv s" and l: "map_of (lanes s) k = Some l"
    and cur: "currentTask l = Some t" and res: "is_result out"
  shows "order_inv (s\<lparr> settled := settled s @ [(t, out)], lanes := AList.delete k (lanes s),
                      globalConcurrency := g \<rparr>)"
    (is "order_inv ?s'")
proof (rule order_invI)
  show "\<forall>(t, out) \<in> set (settled ?s'). task_id t \<le> taskIdCounter ?s'"
    using settle_common(1) [OF inv l cur res] by simp
  show "sorted_wrt (<) (results k' p (settled ?s'))" for k' p
    using settle_common(2) [OF inv l cur res, of k' p] by simp
  show "lane_ok (taskIdCounter ?s') (settled ?s') k' l2"
    if m: "map_of (lanes ?s') k' = Some l2" for k' l2
  proof -
    from m have ne: "k' \<noteq> k" and m': "map_of (lanes s) k' = Some l2"
      by (auto simp: delete_conv' split: if_splits)
    from m' have "lane_ok (taskIdCounter s) (settled s) k' l2"
      using inv by (intro order_inv_lane)
    with settle_common(3) [OF inv l cur res ne] show ?thesis by simp
  qed
qed

lemma order_inv_task_settled:
  assumes li: "lanes_inv s" and inv: "order_inv s"
  shows "order_inv (task_settled k r s)"
proof (cases "map_of (lanes s) k")
  case None
  then show ?thesis using inv by (simp add: task_settled_def)
next
  case (Some l)
  note l = this
  show ?thesis
  proof (cases "currentTask l")
    case None
    then show ?thesis using inv l by (simp add: task_settled_def)
  next
    case (Some t)
    note cur = this
    let ?s1 = "s\<lparr> settled := settled s @ [(t, race_outcome r)] \<rparr>"
    show ?thesis
    proof (cases "queue l = []")
      case False
      have "order_inv (set_lane k (l\<lparr> queue := tl (queue l), currentTask := Some (hd (queue l)) \<rparr>) ?s1)"
        using inv l cur is_result_race False by (rule order_inv_settle_next)
      then show ?thesis using False cur l by (simp add: task_settled_def Let_def)
    next
      case True
      let ?s2 = "?s1\<lparr> lanes := AList.delete k (lanes ?s1),
               globalConcurrency := globalConcurrency ?s1 - 1 \<rparr>"
      have eq: "pump_finally k (set_lane k (l\<lparr> currentTask := None \<rparr>) ?s1) = ?s2"
        by (rule pump_finally_exit) (simp add: True)
      have li1: "lanes_inv ?s1" using li by (rule lanes_inv_fields)
      have l1: "map_of (lanes ?s1) k = Some l" using l by simp
      have pl: "processing l" using li l cur by (simp add: lanes_inv_def)
      have li2: "lanes_inv ?s2" using li1 l1 pl by (rule lanes_inv_exit)
      have "order_inv (s\<lparr> settled := settled s @ [(t, race_outcome r)],
          lanes := AList.delete k (lanes s), globalConcurrency := globalConcurrency s - 1 \<rparr>)"
        using inv l cur is_result_race by (rule order_inv_settle_exit)
      then have "order_inv ?s2" by simp
      with li2 have "order_inv (tryProcessPendingLanes ?s2)"
        by (rule order_inv_tryProcessPendingLanes)
      then show ?thesis
        using True cur l by (simp add: task_settled_def Let_def eq)
    qed
  qed
qed

lemma getOrCreateLane_lane:
  "map_of (lanes (snd (getOrCreateLane k s))) k = Some (lane_of s k)"
  by (simp add: getOrCreateLane_def lane_of_def split: option.splits)

lemma lanes_inv_admitted:
  assumes inv: "lanes_inv s"
  shows "lanes_inv (admitted k h mo po now s)"
proof -
  let ?s1 = "snd (getOrCreateLane k s)"
  have inv1: "lanes_inv ?s1" using inv by (rule lanes_inv_getOrCreateLane)
  have l1: "map_of (lanes ?s1) k = Some (lane_of s k)" by (rule getOrCreateLane_lane)
  have pc: "processing (lane_of s k) = (currentTask (lane_of s k) \<noteq> None)"
    using inv1 l1 by (simp add: lanes_inv_def)
  show ?thesis
    unfolding admitted_def Let_def
    by (rule lanes_inv_set_lane [where l = "lane_of s k"])
       (simp_all add: lanes_inv_fields inv1 l1 pc)
qed

lemma order_inv_getOrCreateLane:
  "order_inv s \<Longrightarrow> order_inv (snd (getOrCreateLane k s))"
  by (simp add: getOrCreateLane_def order_inv_set_lane lane_ok_empty split: option.splits)

lemma steer_rejected_entries:
  "\<forall>(t, out) \<in> set (steer_rejected m q). \<not> is_result out \<and> t \<in> set q"
  by (auto simp: steer_rejected_def)

lemma steer_filter_subset: "set (steer_filter m q) \<subseteq> set q"
  by (auto simp: steer_filter_def)

lemma steer_filter_sorted: "sorted_wrt P q \<Longrightarrow> sorted_wrt P (steer_filter m q)"
  by (simp add: steer_filter_def sorted_wrt_filter)

lemma order_inv_admitted:
  assumes inv: "order_inv s"
  shows "order_inv (admitted k h mo po now s)"
proof -
  let ?s1 = "snd (getOrCreateLane k s)"
  let ?l = "lane_of s k"
  let ?t = "new_task k h mo po now s"
  let ?n = "taskIdCounter s"
  let ?xs = "steer_rejected (mode ?t) (queue ?l)"
  let ?F = "steer_filter (mode ?t) (queue ?l)"
  let ?l' = "?l\<lparr> queue := insertByPriority ?F ?t \<rparr>"
  let ?s2 = "?s1\<lparr> taskIdCounter := ?n + 1, settled := settled s @ ?xs \<rparr>"
  have inv1: "order_inv ?s1" using inv by (rule order_inv_getOrCreateLane)
  have l1: "map_of (lanes ?s1) k = Some ?l" by (rule getOrCreateLane_lane)
  have ok: "lane_ok ?n (settled s) k ?l"
    using order_inv_lane [OF inv1 l1] by simp
  have nr: "\<forall>(t, out) \<in> set ?xs. \<not> is_result out"
    using steer_rejected_entries [of "mode ?t" "queue ?l"] by auto
  have qp: "set (queue ?l) \<subseteq> set (pending ?l)" by (auto simp: pending_def)
  have idq: "\<forall>t \<in> set (pending ?l). sessionKey t = k \<and> task_id t \<le> ?n"
    using ok unfolding lane_ok_def by blast
  have lb: "\<forall>(t, out) \<in> set (settled s). task_id t \<le> ?n"
    using order_inv_log_bound [OF inv] .
  have lb2: "\<forall>(t, out) \<in> set (settled s @ ?xs). task_id t \<le> ?n + 1"
  proof -
    have "\<forall>(t, out) \<in> set ?xs. task_id t \<le> ?n"
      using steer_rejected_entries [of "mode ?t" "queue ?l"] idq qp by fastforce
    with lb show ?thesis by fastforce
  qed
  have res_eq: "results k' p (settled s @ ?xs) = results k' p (settled s)" for k' p
    using nr by (simp add: results_no_result)
  have new_ok: "lane_ok (?n + 1) (settled s @ ?xs) k ?l'"
  proof -
    have cur_eq: "pending ?l' = (case currentTask ?l of None \<Rightarrow> [] | Some t \<Rightarrow> [t]) @
        insertByPriority ?F ?t"
      by (simp add: pending_def)
    have pend: "pending ?l = (case currentTask ?l of None \<Rightarrow> [] | Some t \<Rightarrow> [t]) @ queue ?l"
      by (simp add: pending_def)
    have so: "sorted_wrt older (pending ?l)" and sq: "sorted_wrt (\<lambda>a b. priority b \<le> priority a) (queue ?l)"
      using ok unfolding lane_ok_def by blast+
    have Fsub: "set ?F \<subseteq> set (queue ?l)" by (rule steer_filter_subset)
    have sF: "sorted_wrt (\<lambda>a b. priority b \<le> priority a) ?F"
      using sq by (rule steer_filter_sorted)
    have soq: "sorted_wrt older (queue ?l)"
      using so by (simp add: pend sorted_wrt_append)
    have soF: "sorted_wrt older ?F" using soq by (rule steer_filter_sorted)
    have idF: "\<forall>x \<in> set ?F. task_id x < task_id ?t"
      using idq qp Fsub by (fastforce simp: new_task_def)
    have a: "\<forall>u \<in> set (pending ?l'). sessionKey u = k \<and> task_id u \<le> ?n + 1"
    proof
      fix u assume "u \<in> set (pending ?l')"
      then have "u = ?t \<or> u \<in> set (pending ?l)"
        using Fsub by (auto simp: cur_eq pend split: option.splits)
      then show "sessionKey u = k \<and> task_id u \<le> ?n + 1"
        using idq by (auto simp: new_task_def)
    qed
    have b: "sorted_wrt (\<lambda>a b. priority b \<le> priority a) (queue ?l')"
      using sF by (simp add: insertByPriority_sorted)
    have c: "sorted_wrt older (pending ?l')"
    proof -
      have ins: "sorted_wrt older (insertByPriority ?F ?t)"
        using sF soF idF by (rule insertByPriority_older)
      show ?thesis
      proof (cases "currentTask ?l")
        case None
        then show ?thesis using ins by (simp add: cur_eq)
      next
        case (Some c)
        have "c \<in> set (pending ?l)" using Some by (simp add: pend)
        with idq have "task_id c < task_id ?t" by (fastforce simp: new_task_def)
        then have "older c ?t" by (simp add: older_def)
        moreover have "\<forall>y \<in> set ?F. older c y"
          using so Fsub Some by (auto simp: pend)
        ultimately show ?thesis using ins Some by (simp add: cur_eq)
      qed
    qed
    have d: "\<forall>u \<in> set (pending ?l'). \<forall>i \<in> set (results k (priority u) (settled s @ ?xs)).
        i < task_id u"
    proof (intro ballI)
      fix u i
      assume u: "u \<in> set (pending ?l')"
        and "i \<in> set (results k (priority u) (settled s @ ?xs))"
      then have i: "i \<in> set (results k (priority u) (settled s))" by (simp only: res_eq)
      from u have "u = ?t \<or> u \<in> set (pending ?l)"
        using Fsub by (auto simp: cur_eq pend split: option.splits)
      then show "i < task_id u"
      proof
        assume "u = ?t"
        moreover have "i \<le> ?n" using results_bound [OF lb] i by blast
        ultimately show ?thesis by (simp add: new_task_def)
      next
        assume "u \<in> set (pending ?l)"
        with ok i show ?thesis unfolding lane_ok_def by blast
      qed
    qed
    show ?thesis unfolding lane_ok_def using a b c d by blast
  qed
  have inv2: "order_inv ?s2"
  proof (rule order_invI)
    show "\<forall>(t, out) \<in> set (settled ?s2). task_id t \<le> taskIdCounter ?s2"
      using lb2 by simp
    show "sorted_wrt (<) (results k' p (settled ?s2))" for k' p
      using order_inv_sorted [OF inv, of k' p] by (simp add: res_eq del: results_append)
    show "lane_ok (taskIdCounter ?s2) (settled ?s2) k' l2"
      if m: "map_of (lanes ?s2) k' = Some l2" for k' l2
    proof -
      from m have "lane_ok ?n (settled s) k' l2"
        using order_inv_lane [OF inv1, of k' l2] by simp
      then have "lane_ok (?n + 1) (settled s) k' l2" by (rule lane_ok_mono) simp
      then have "lane_ok (?n + 1) (settled s @ ?xs) k' l2" using nr by (rule lane_ok_log)
      then show ?thesis by simp
    qed
  qed
  have "order_inv (set_lane k ?l' ?s2)"
    using inv2 by (rule order_inv_set_lane) (use new_ok in simp)
  then show ?thesis by (simp add: admitted_def Let_def)
qed

lemma order_inv_enqueue:
  assumes li: "lanes_inv s" and inv: "order_inv s"
  shows "order_inv (snd (enqueue k h mo po now s))"
proof (cases "overflow_error (config s) k (lane_of s k)")
  case (Some e)
  then show ?thesis using inv by (simp add: enqueue_refused order_inv_getOrCreateLane)
next
  case None
  then show ?thesis
    using li inv
    by (simp add: enqueue_accepted order_inv_processLane lanes_inv_admitted order_inv_admitted)
qed

lemma both_inv_step:
  "lanes_inv s \<Longrightarrow> order_inv s \<Longrightarrow> order_inv (step s e)"
  by (cases e)
     (simp_all add: order_inv_enqueue order_inv_abort order_inv_clear order_inv_task_settled)

lemma order_inv_foldl:
  "lanes_inv s \<Longrightarrow> order_inv s \<Longrightarrow> order_inv (foldl step s evs)"
  by (induction evs arbitrary: s) (simp_all add: both_inv_step lanes_inv_step)

lemma order_inv_new: "order_inv (new_LaneQueue c)"
  by (simp add: order_inv_def new_LaneQueue_def results_def)

lemma order_inv_run: "order_inv (run c evs)"
  unfolding run_def by (rule order_inv_foldl) (rule lanes_inv_new, rule order_inv_new)

subsection \<open>Priority insertion and the order of results\<close>

text \<open>
  Claim C4, as amended. \<^verbatim>\<open>insertByPriority\<close> puts the new task immediately before the
  first queued task whose priority is strictly less than its own, at the end if there
  is none. Every \<^verbatim>\<open>enqueue\<close> that the overflow check lets through makes the task
  with the next number, inserts it so into the queue left by the steer scan, and then
  triggers the pump. Consequently, after every sequence of events, for every lane
  \<open>k'\<close> and priority \<open>p\<close>, the tasks of that lane and priority whose result has
  settled (the value, the error or the timeout of a task that was run) have settled
  in the order of their numbers, which is the order in which they were enqueued. A
  queued task that is superseded, aborted or cleared is rejected at once, which can be
  before an earlier task of its lane has settled; those rejections are not results of
  running a task and are not counted here.
\<close>

theorem priority_insertion_and_order:
  "insertByPriority q t =
     takeWhile (\<lambda>x. \<not> priority x < priority t) q @ t #
     dropWhile (\<lambda>x. \<not> priority x < priority t) q \<and>
   (overflow_error (config s) k (lane_of s k) = None \<longrightarrow>
      enqueue k h mo po now s =
        (Inr (new_task k h mo po now s), processLane k (admitted k h mo po now s)) \<and>
      queue_of (admitted k h mo po now s) k =
        insertByPriority (steer_filter (mode (new_task k h mo po now s)) (queue_of s k))
          (new_task k h mo po now s) \<and>
      task_id (new_task k h mo po now s) = taskIdCounter s + 1 \<and>
      taskIdCounter (snd (enqueue k h mo po now s)) = taskIdCounter s + 1) \<and>
   sorted_wrt (<) (results k' p (settled (run c evs)))"
proof -
  have "queue_of (admitted k h mo po now s) k =
        insertByPriority (steer_filter (mode (new_task k h mo po now s)) (queue_of s k))
          (new_task k h mo po now s)"
    using admitted_lane [of k h mo po now s] by (simp add: queue_of_def lane_of_def)
  moreover have "task_id (new_task k h mo po now s) = taskIdCounter s + 1"
    by (simp add: new_task_def)
  moreover have "sorted_wrt (<) (results k' p (settled (run c evs)))"
    using order_inv_run by (rule order_inv_sorted)
  ultimately show ?thesis
    by (simp add: insertByPriority_split [symmetric] enqueue_accepted del: insertByPriority.simps)
qed

theorem priority_insertion_and_order_witness:
  "overflow_error (config (run cfg_wait three_queued)) ''s1''
       (lane_of (run cfg_wait three_queued) ''s1'') = None \<and>
   map task_id (queue_of (snd (enqueue ''s1'' 3 None (Some 5) 0 (run cfg_wait three_queued))) ''s1'')
     = [4, 2, 3] \<and>
   results ''s1'' 0 (settled (run cfg_wait
       (three_queued @ [Settled ''s1'' (Fulfilled 0), Settled ''s1'' TimerFired,
                        Settled ''s1'' (Thrown ''boom'')]))) = [1, 2, 3] \<and>
   sorted_wrt (<) (results ''s1'' 0 (settled (run cfg_wait
       (three_queued @ [Settled ''s1'' (Fulfilled 0), Settled ''s1'' TimerFired,
                        Settled ''s1'' (Thrown ''boom'')]))))"
proof -
  have a: "overflow_error (config (run cfg_wait three_queued)) ''s1''
       (lane_of (run cfg_wait three_queued) ''s1'') = None"
    by (simp add: three_queued_state overflow_error_def)
  have r: "results ''s1'' 0 (settled (run cfg_wait
       (three_queued @ [Settled ''s1'' (Fulfilled 0), Settled ''s1'' TimerFired,
                        Settled ''s1'' (Thrown ''boom'')]))) = [1, 2, 3]"
    by (simp add: run_def foldl_append three_queued_state [unfolded run_def] op_defs
          results_def is_result_def)
  have q: "map task_id (queue_of (processLane ''s1''
       (admitted ''s1'' 3 None (Some 5) 0 (run cfg_wait three_queued))) ''s1'') = [4, 2, 3]"
    by (simp add: three_queued_state admitted_def new_task_def op_defs queue_of_def lane_of_def)
  from priority_insertion_and_order [of _ _ "run cfg_wait three_queued" "''s1''" 3 None "Some 5" 0
      "''s1''" 0 cfg_wait "three_queued @ [Settled ''s1'' (Fulfilled 0), Settled ''s1'' TimerFired,
                        Settled ''s1'' (Thrown ''boom'')]"] a q r
  show ?thesis by simp
qed

theorem steer_overtakes_counterexample:
  "map (\<lambda>(t, out). (task_id t, sessionKey t, mode t, priority t, out))
     (settled (run cfg_default
        [Enqueue ''s1'' 0 None None 0, Enqueue ''s1'' 1 None None 0,
         Enqueue ''s1'' 2 (Some SteerMode) None 0, Settled ''s1'' (Fulfilled 0)]))
   = [(2, ''s1'', CollectMode, 0, Rejected Superseded), (1, ''s1'', CollectMode, 0, Resolved 0)]"
  by (simp add: sched_defs cfg_default_def)

section \<open>Properties of the response assembler\<close>

declare decimal.simps [simp del]

lemma decimal_nonempty: "decimal n \<noteq> []"
  by (subst decimal.simps) simp

lemma decimal_inj: "decimal n = decimal m \<Longrightarrow> n = m"
proof (induction n arbitrary: m rule: decimal.induct)
  case (1 n)
  show ?case
  proof (cases "n < 10")
    case True
    note n = this
    show ?thesis
    proof (cases "m < 10")
      case True
      with n "1.prems" show ?thesis
        by (simp add: decimal.simps [of n] decimal.simps [of m])
    next
      case False
      with n "1.prems" decimal_nonempty [of "m div 10"] show ?thesis
        by (simp add: decimal.simps [of n] decimal.simps [of m] Cons_eq_append_conv)
    qed
  next
    case False
    note n = this
    show ?thesis
    proof (cases "m < 10")
      case True
      with n "1.prems" decimal_nonempty [of "n div 10"] show ?thesis
        by (simp add: decimal.simps [of n] decimal.simps [of m] append_eq_Cons_conv)
    next
      case False
      with n "1.prems" have "decimal (n div 10) = decimal (m div 10)" "n mod 10 = m mod 10"
        by (simp_all add: decimal.simps [of n] decimal.simps [of m])
      with "1.IH" [OF n] have "n div 10 = m div 10" "n mod 10 = m mod 10" by blast+
      then show ?thesis by (metis div_mult_mod_eq)
    qed
  qed
qed

lemma page_title_inj: "page_title h i = page_title h j \<Longrightarrow> i = j"
  by (auto simp: page_title_def str_continued_def asc_def dest: decimal_inj split: if_splits)

lemma createCard_title:
  "card_title (createCard isComplete title i es False) = page_title (sealed_header title) i"
  "card_title (createCard isComplete title i es True) = page_title (final_header isComplete title) i"
  "card_elements (createCard isComplete title i es fin) = es"
  "template (createCard isComplete title i es False) = Wathet"
  "template (createCard isComplete title i es True) = (if isComplete then Green else Wathet)"
  by (simp_all add: createCard_def page_title_def sealed_header_def final_header_def Let_def
        split: option.splits)

lemma elements_size_simps [simp]:
  "elements_size [] = 0"
  "elements_size (es @ [e]) = elements_size es + estimateElementSize e"
  "elements_size [e] = estimateElementSize e"
  by (simp_all add: elements_size_def)

lemma builder_inv_new: "builder_inv isComplete title new_builder"
  by (simp add: builder_inv_def new_builder_def)

lemma builder_inv_flushCard:
  assumes inv: "builder_inv isComplete title b"
  shows "builder_inv isComplete title (flushCard isComplete title b)"
proof (cases "currentElements b = []")
  case True
  then show ?thesis using inv by (simp add: flushCard_def)
next
  case False
  have wb: "within_bound (currentElements b)"
    using inv False unfolding builder_inv_def within_bound_def
    by (cases "currentElements b") auto
  show ?thesis
    using inv False wb
    by (auto simp: builder_inv_def flushCard_def nth_append createCard_title less_Suc_eq)
qed

lemma builder_inv_addElement:
  assumes inv: "builder_inv isComplete title b"
  shows "builder_inv isComplete title (addElement isComplete title b e)"
proof (cases "currentSize b + estimateElementSize e > MAX_CARD_SIZE \<and> length (currentElements b) > 0")
  case True
  have f: "builder_inv isComplete title (flushCard isComplete title b)"
    using inv by (rule builder_inv_flushCard)
  have e: "currentElements (flushCard isComplete title b) = []"
    "currentSize (flushCard isComplete title b) = 0"
    using True by (simp_all add: flushCard_def)
  show ?thesis
    using True f e by (simp add: addElement_def Let_def builder_inv_def)
next
  case False
  then show ?thesis
    using inv by (auto simp: addElement_def Let_def builder_inv_def)
qed

lemma builder_inv_render_tool:
  "builder_inv isComplete title b \<Longrightarrow>
   builder_inv isComplete title (render_tool lib proc isComplete title b tool)"
  by (simp add: render_tool_def builder_inv_addElement)

lemma builder_inv_render_tools:
  "builder_inv isComplete title b \<Longrightarrow>
   builder_inv isComplete title (foldl (render_tool lib proc isComplete title) b tools)"
  by (induction tools arbitrary: b) (simp_all add: builder_inv_render_tool)

lemma builder_inv_reasoningIndex:
  "builder_inv isComplete title (b\<lparr> reasoningIndex := n \<rparr>) = builder_inv isComplete title b"
  by (simp add: builder_inv_def)

lemma builder_inv_render_group:
  "builder_inv isComplete title b \<Longrightarrow>
   builder_inv isComplete title (render_group lib proc isComplete title n b g)"
  by (cases "g_type g")
     (simp_all add: render_group_def Let_def builder_inv_addElement builder_inv_render_tools
        builder_inv_reasoningIndex)

lemma builder_inv_render_groups:
  "builder_inv isComplete title b \<Longrightarrow>
   builder_inv isComplete title (foldl (render_group lib proc isComplete title n) b gs)"
  by (induction gs arbitrary: b) (simp_all add: builder_inv_render_group)

subsection \<open>Pages\<close>

text \<open>
  Claim C1, as amended. For every call of \<^verbatim>\<open>buildStreamingCardsV2\<close>, whatever the
  number of artifacts: the artifact at position \<open>i\<close> (from 0) has the title
  \<open>page_title h i\<close>, which is the header \<open>h\<close> alone for \<open>i = 0\<close> and the header followed by
  the page marker with the number \<open>i\<close> for \<open>i > 0\<close>; the header is the caller's title or
  the processing label for a sealed artifact, and the caller's title or the status
  label for the final one. So the first artifact carries no page marker, every later
  one carries the marker of its position, and the titles of the sealed artifacts are
  pairwise distinct. Every artifact either has a size estimate (the sum of
  \<^verbatim>\<open>JSON.stringify(element).length\<close> over its elements, which is what the code
  accumulates) of at most \<^verbatim>\<open>MAX_CARD_SIZE\<close> or consists of a single element.
\<close>

theorem pages_titles_and_sizes:
  "(let cs = buildStreamingCardsV2 lib proc parts isComplete title in
      cs \<noteq> [] \<and>
      (\<forall>i < length cs.
         card_title (cs ! i) =
           page_title (if i + 1 < length cs then sealed_header title
                       else final_header isComplete title) i) \<and>
      distinct (map card_title (butlast cs)) \<and>
      (\<forall>c \<in> set cs.
         elements_size (card_elements c) \<le> MAX_CARD_SIZE \<or> length (card_elements c) = 1))"
proof -
  define gs where "gs = groupConsecutiveParts parts"
  define n where "n = length (filter (\<lambda>g. g_type g = ReasoningPart) gs)"
  define b where "b = foldl (render_group lib proc isComplete title n) new_builder gs"
  define fe where "fe = (if length (currentElements b) = 0
             then [Markdown (if isComplete then str_no_content else asc ''...'')]
             else currentElements b)"
  define cs where "cs = buildStreamingCardsV2 lib proc parts isComplete title"
  have cs: "cs = cards b @ [createCard isComplete title (cardIndex b) fe True]"
    by (simp add: cs_def buildStreamingCardsV2_def Let_def gs_def n_def b_def fe_def)
  have inv: "builder_inv isComplete title b"
    unfolding b_def by (rule builder_inv_render_groups) (rule builder_inv_new)
  have len: "length (cards b) = cardIndex b"
    and sealed: "\<And>i. i < length (cards b) \<Longrightarrow>
        card_title (cards b ! i) = page_title (sealed_header title) i \<and>
        within_bound (card_elements (cards b ! i))"
    and cur: "currentSize b = elements_size (currentElements b)"
      "currentSize b \<le> MAX_CARD_SIZE \<or> length (currentElements b) \<le> 1"
    using inv unfolding builder_inv_def by blast+
  have wfe: "within_bound fe"
  proof (cases "currentElements b")
    case Nil
    then show ?thesis by (simp add: fe_def within_bound_def)
  next
    case (Cons x xs)
    then show ?thesis using cur by (cases xs) (auto simp: fe_def within_bound_def)
  qed
  have titles: "\<forall>i < length cs.
         card_title (cs ! i) =
           page_title (if i + 1 < length cs then sealed_header title
                       else final_header isComplete title) i"
  proof (intro allI impI)
    fix i assume "i < length cs"
    then have "i < cardIndex b \<or> i = cardIndex b" using len by (auto simp: cs)
    then show "card_title (cs ! i) =
           page_title (if i + 1 < length cs then sealed_header title
                       else final_header isComplete title) i"
      using sealed [of i] len by (auto simp: cs nth_append createCard_title)
  qed
  have "map card_title (cards b) = map (page_title (sealed_header title)) [0..<length (cards b)]"
    using sealed by (auto intro: nth_equalityI)
  moreover have "distinct (map (page_title (sealed_header title)) [0..<length (cards b)])"
    by (auto simp: distinct_map intro: inj_onI dest: page_title_inj)
  ultimately have dist: "distinct (map card_title (butlast cs))"
    by (simp add: cs)
  have bound: "\<forall>c \<in> set cs. within_bound (card_elements c)"
  proof
    fix c assume "c \<in> set cs"
    then have "c \<in> set (cards b) \<or> c = createCard isComplete title (cardIndex b) fe True"
      by (auto simp: cs)
    then show "within_bound (card_elements c)"
    proof
      assume "c \<in> set (cards b)"
      then obtain i where "i < length (cards b)" "cards b ! i = c"
        by (auto simp: in_set_conv_nth)
      with sealed [of i] show ?thesis by simp
    next
      assume "c = createCard isComplete title (cardIndex b) fe True"
      with wfe show ?thesis by (simp add: createCard_title)
    qed
  qed
  have "cs \<noteq> []" by (simp add: cs)
  with titles dist bound show ?thesis
    unfolding cs_def [symmetric] Let_def within_bound_def by blast
qed

lemmas card_defs = buildStreamingCardsV2_def groupConsecutiveParts_def add_part_def render_group_def
  render_tool_def tool_element_def toolElements_def formatToolInput_def group_texts_def
  reasoning_element_def addElement_def flushCard_def createCard_def new_builder_def
  estimateElementSize_def truncateContent_def getStatusEmoji_def isPathKey_def
  ensureAbsolutePath_def clip100_def truthy_def quote_def quote_unit_def
  is_leading_surrogate_def is_trailing_surrogate_def asc_def List.map_filter_def
  MAX_CARD_SIZE_def MAX_CARD_CONTENT_LENGTH_def MAX_REASONING_LENGTH_def MAX_TOOL_OUTPUT_LENGTH_def
  str_done_def str_processing_def str_continued_def str_running_def str_no_content_def
  str_error_label_def str_output_cut_def str_reasoning_cut_def str_thinking_def
  TRUNCATION_SUFFIX_def trim_def is_white_space_def Let_def
  posix_ascii_def proc0_def text_part_def tool_part_def ascii_lower_def

lemma quote_body_plain:
  "\<forall>c \<in> set s. 0x20 \<le> c \<and> c \<noteq> 0x22 \<and> c \<noteq> 0x5C \<and> c < 0xD800 \<Longrightarrow> quote_body s = s"
  by (induction s rule: quote_body.induct)
     (auto simp: quote_unit_def is_leading_surrogate_def is_trailing_surrogate_def)

lemma big_text_facts [simp]:
  "length big_text = 25000" "big_text \<noteq> []" "quote_body big_text = big_text"
proof -
  show "length big_text = 25000" by (simp add: big_text_def)
  then show "big_text \<noteq> []" by auto
  show "quote_body big_text = big_text"
    by (rule quote_body_plain) (simp add: big_text_def)
qed

lemma two_pages:
  "buildStreamingCardsV2 posix_ascii proc0
     [tool_part (asc ''t'') None None None None, text_part big_text] True None =
   [\<lparr> schema = asc ''2.0'', card_title = str_processing, template = Wathet,
      card_elements = [Panel ([0x23F3] @ asc '' t'') [Markdown str_running], Hr] \<rparr>,
    \<lparr> schema = asc ''2.0'', card_title = str_done @ str_continued @ asc ''1)'', template = Green,
      card_elements = [Markdown big_text] \<rparr>]"
  by (simp add: card_defs decimal.simps)

theorem pages_titles_and_sizes_witness:
  "length (buildStreamingCardsV2 posix_ascii proc0 two_page_parts True None) = 2 \<and>
   card_title (buildStreamingCardsV2 posix_ascii proc0 two_page_parts True None ! 0)
     = page_title (sealed_header None) 0 \<and>
   card_title (buildStreamingCardsV2 posix_ascii proc0 two_page_parts True None ! 1)
     = page_title (final_header True None) 1 \<and>
   distinct (map card_title (butlast (buildStreamingCardsV2 posix_ascii proc0 two_page_parts True None))) \<and>
   elements_size (card_elements (buildStreamingCardsV2 posix_ascii proc0 two_page_parts True None ! 0))
     \<le> MAX_CARD_SIZE \<and>
   length (card_elements (buildStreamingCardsV2 posix_ascii proc0 two_page_parts True None ! 1)) = 1"
proof -
  let ?cs = "buildStreamingCardsV2 posix_ascii proc0 two_page_parts True None"
  have len: "length ?cs = 2" "length (card_elements (?cs ! 0)) = 2"
    "length (card_elements (?cs ! 1)) = 1"
    by (simp_all add: two_page_parts_def two_pages)
  have mem: "?cs ! 0 \<in> set ?cs" using len by (intro nth_mem) simp
  from pages_titles_and_sizes [of posix_ascii proc0 two_page_parts True None]
  have a: "\<forall>i < length ?cs. card_title (?cs ! i) =
           page_title (if i + 1 < length ?cs then sealed_header None else final_header True None) i"
    and d: "distinct (map card_title (butlast ?cs))"
    and b: "\<forall>c \<in> set ?cs. elements_size (card_elements c) \<le> MAX_CARD_SIZE \<or> length (card_elements c) = 1"
    unfolding Let_def by blast+
  from a len have "card_title (?cs ! 0) = page_title (sealed_header None) 0"
    "card_title (?cs ! 1) = page_title (final_header True None) 1"
    by simp_all
  moreover from b mem len have "elements_size (card_elements (?cs ! 0)) \<le> MAX_CARD_SIZE"
    by fastforce
  ultimately show ?thesis using len d by simp
qed

theorem first_page_unmarked_counterexample:
  "length (buildStreamingCardsV2 posix_ascii proc0 two_page_parts True None) = 2 \<and>
   card_title (buildStreamingCardsV2 posix_ascii proc0 two_page_parts True None ! 0) = str_processing \<and>
   \<not> str_includes (card_title (buildStreamingCardsV2 posix_ascii proc0 two_page_parts True None ! 0))
        str_continued"
  by (simp add: two_page_parts_def two_pages) (simp add: str_processing_def str_continued_def asc_def)

subsection \<open>Tool panels\<close>

lemma formatToolInput_Nil [simp]: "formatToolInput lib proc [] = []"
  by (simp add: formatToolInput_def List.map_filter_def)

lemma single_tool_groups:
  "p_type tool = ToolCallPart \<Longrightarrow>
   groupConsecutiveParts [tool] = [\<lparr> g_type = ToolCallPart, g_parts = [tool] \<rparr>]"
  by (simp add: groupConsecutiveParts_def add_part_def)

lemma single_tool_cards:
  assumes "p_type tool = ToolCallPart" "truthy (p_name tool)"
  shows "buildStreamingCardsV2 lib proc [tool] isComplete title =
     [createCard isComplete title 0 [tool_element lib proc tool] True]"
  using assms
  by (simp add: buildStreamingCardsV2_def single_tool_groups render_group_def render_tool_def
        addElement_def new_builder_def Let_def)

text \<open>
  Claim C2, as amended. For a tool call with neither an error nor an output (absent or
  the empty string): if its input gives at least one key/value line, the panel body is
  the markdown block of those lines and nothing else; if there is no input or the input
  gives no line, the panel body is the placeholder line alone. The placeholder stands
  in for an empty body only; it never follows input lines. A tool call with a name,
  alone in the fragment list, is rendered as one artifact holding that panel.
\<close>

theorem tool_panel_without_result:
  assumes "\<not> truthy (p_error tool)" and "\<not> truthy (p_output tool)"
  shows
    "panel_body (tool_element lib proc tool) =
       (case p_input tool of
          None \<Rightarrow> [Markdown str_running]
        | Some input \<Rightarrow>
            if formatToolInput lib proc input \<noteq> []
            then [Markdown (formatToolInput lib proc input)]
            else [Markdown str_running]) \<and>
     (p_type tool = ToolCallPart \<and> truthy (p_name tool) \<longrightarrow>
        buildStreamingCardsV2 lib proc [tool] isComplete title =
          [createCard isComplete title 0 [tool_element lib proc tool] True])"
  using assms
  by (auto simp: tool_element_def toolElements_def Let_def single_tool_cards split: option.splits)

lemma ls_tool_cards:
  "buildStreamingCardsV2 posix_ascii proc0 [ls_tool] False None =
     [\<lparr> schema = asc ''2.0'', card_title = str_processing, template = Wathet,
        card_elements = [Panel ([0x23F3] @ asc '' bash'') [Markdown (asc ''**command**: `ls`'')]] \<rparr>]"
  by (simp add: ls_tool_def card_defs)

theorem tool_panel_without_result_witness:
  "\<not> truthy (p_error ls_tool) \<and> \<not> truthy (p_output ls_tool) \<and>
   p_type ls_tool = ToolCallPart \<and> truthy (p_name ls_tool) \<and>
   panel_body (tool_element posix_ascii proc0 ls_tool) = [Markdown (asc ''**command**: `ls`'')] \<and>
   buildStreamingCardsV2 posix_ascii proc0 [ls_tool] False None =
     [createCard False None 0 [tool_element posix_ascii proc0 ls_tool] True]"
proof -
  have a: "\<not> truthy (p_error ls_tool)" "\<not> truthy (p_output ls_tool)"
    "p_type ls_tool = ToolCallPart" "truthy (p_name ls_tool)"
    by (simp_all add: ls_tool_def tool_part_def truthy_def asc_def)
  have f: "formatToolInput posix_ascii proc0 [(asc ''command'', VString (asc ''ls''))]
      = asc ''**command**: `ls`''"
    by (simp add: card_defs)
  have i: "p_input ls_tool = Some [(asc ''command'', VString (asc ''ls''))]"
    by (simp add: ls_tool_def tool_part_def)
  have n: "asc ''**command**: `ls`'' \<noteq> []" by (simp add: asc_def)
  from tool_panel_without_result [OF a(1,2), of posix_ascii proc0 False None] a
  show ?thesis by (simp add: i f n)
qed

theorem no_placeholder_counterexample:
  "map card_elements (buildStreamingCardsV2 posix_ascii proc0 [ls_tool] False None) =
     [[Panel ([0x23F3] @ asc '' bash'') [Markdown (asc ''**command**: `ls`'')]]] \<and>
   Markdown str_running \<notin> set [Markdown (asc ''**command**: `ls`'')]"
  by (simp add: ls_tool_cards) (simp add: str_running_def asc_def)

subsection \<open>Code blocks\<close>

text \<open>
  Claim C9 fails on the code. \<^verbatim>\<open>escapeCodeBlockContent\<close> replaces three backticks by
  backtick, space, backtick, space, backtick. After a run of five backticks the
  replacement's last backtick meets the two backticks left over, so the escaped text
  again holds three backticks in a row: a tool output of five backticks is embedded
  between the fences as a line that ends in a triple backtick.
\<close>

theorem backticks_survive_escaping:
  "map card_elements (buildStreamingCardsV2 posix_ascii proc0 [backtick_tool] True None) =
     [[Panel ([0x2705] @ asc '' bash'')
        [Markdown (asc ''```'' @ [0x0A] @ asc ''` ` ```'' @ [0x0A] @ asc ''```'')]]] \<and>
   escapeCodeBlockContent (asc ''`````'') = asc ''` ` ```'' \<and>
   str_includes (escapeCodeBlockContent (asc ''`````'')) (asc ''```'')"
  by (simp add: backtick_tool_def card_defs)

end
